theory Spec2Isabelle
  imports Main "HOL-Library.Word"
begin

section \<open>Data model\<close>

text \<open>
  The event-ingestion service of the repository, embedded function by function.
  Python's unbounded integers are \<open>int\<close>, results of \<open>len\<close> are \<open>nat\<close>, a UUID is a
  128-bit word. A point in time is a number of seconds (\<open>int\<close>) on the clock of the
  time zone of the store's session; a calendar date is a number of days, and
  \<open>DATE(occurred_at)\<close> of the store is the day a second of that clock falls in.
  Every operation that reads a clock (the expiry of a Redis key) gets the current time
  as its argument \<open>now\<close>.
\<close>

type_synonym uuid = "128 word"

text \<open>\<open>app/models/event.py\<close>, \<open>EventCreate\<close>. The property mapping is kept as its JSON text.\<close>

record event =
  event_id :: uuid
  user_id :: string
  event_type :: string
  occurred_at :: int
  properties :: string

text \<open>The exceptions of the Python code that the model tells apart.\<close>

datatype exn =
    ResponseError
  | PublishError
  | DriverError
  | ValueError
  | UnicodeDecodeError
  | JSONDecodeError
  | AttributeError
  | ValidationError

section \<open>The Redis store and its commands\<close>

text \<open>
  The two services of \<open>app/services/redis_service.py\<close> build their keys with the
  prefixes \<open>event:seen:\<close> and \<open>rate_limit:\<close>; the two families are the two
  constructors of \<open>key\<close>. A stored value is an integer (the marker \<open>"1"\<close> or a counter)
  with an optional expiry time; a key whose expiry time has been reached is gone.
  Redis keeps a counter in 64 bits and \<open>INCR\<close> fails beyond it; every call adds one, no
  run gets there, and the model counts in \<open>int\<close>.
\<close>

datatype key = Event_seen uuid | Rate_limit string

type_synonym redis = "key \<rightharpoonup> int \<times> int option"

datatype cmd =
    EXISTS key
  | SET_NX_EX key int int
  | INCR key
  | EXPIRE key int

datatype reply = Int_reply int | Ok_reply | Nil_reply | Error_reply

definition live :: "int \<Rightarrow> redis \<Rightarrow> key \<Rightarrow> bool" where
  "live now r k =
     (case r k of
        None \<Rightarrow> False
      | Some (v, None) \<Rightarrow> True
      | Some (v, Some e) \<Rightarrow> now < e)"

text \<open>
  One command at time \<open>now\<close>. \<open>SET key v EX ttl NX\<close> is refused by the server when the
  expire time is not positive, answers nil when the key exists, and stores the value
  otherwise. \<open>INCR\<close> creates a missing key at 1 without expiry and keeps the expiry of an
  existing one. \<open>EXPIRE\<close> with a non-positive time deletes the key.
\<close>

fun exec_cmd :: "int \<Rightarrow> cmd \<Rightarrow> redis \<Rightarrow> reply \<times> redis" where
  "exec_cmd now (EXISTS k) r = (Int_reply (if live now r k then 1 else 0), r)"
| "exec_cmd now (SET_NX_EX k v ttl) r =
     (if ttl \<le> 0 then (Error_reply, r)
      else if live now r k then (Nil_reply, r)
      else (Ok_reply, r(k \<mapsto> (v, Some (now + ttl)))))"
| "exec_cmd now (INCR k) r =
     (if live now r k
      then (case r k of
              Some (v, e) \<Rightarrow> (Int_reply (v + 1), r(k \<mapsto> (v + 1, e)))
            | None \<Rightarrow> (Int_reply 1, r(k \<mapsto> (1, None))))
      else (Int_reply 1, r(k \<mapsto> (1, None))))"
| "exec_cmd now (EXPIRE k secs) r =
     (if live now r k
      then (case r k of
              Some (v, e) \<Rightarrow>
                (Int_reply 1, if secs \<le> 0 then r(k := None) else r(k \<mapsto> (v, Some (now + secs))))
            | None \<Rightarrow> (Int_reply 0, r))
      else (Int_reply 0, r))"

text \<open>
  \<open>pipe.execute()\<close>: the queued commands run in order as one transaction
  (\<open>MULTI\<close>/\<open>EXEC\<close>, the default of \<open>redis.pipeline()\<close>); a command that fails does not
  undo the others, and the client raises once all have run.
\<close>

fun run_cmds :: "int \<Rightarrow> cmd list \<Rightarrow> redis \<Rightarrow> reply list \<times> redis" where
  "run_cmds now [] r = ([], r)"
| "run_cmds now (c # cs) r =
     (let (x, r1) = exec_cmd now c r;
          (xs, r2) = run_cmds now cs r1
      in (x # xs, r2))"

definition pipeline_execute :: "int \<Rightarrow> cmd list \<Rightarrow> redis \<Rightarrow> (exn + reply list) \<times> redis" where
  "pipeline_execute now cs r =
     (let (xs, r') = run_cmds now cs r
      in if Error_reply \<in> set xs then (Inl ResponseError, r') else (Inr xs, r'))"

text \<open>Python's truth value of a reply (\<open>if exists:\<close>).\<close>

fun truthy :: "reply \<Rightarrow> bool" where
  "truthy (Int_reply n) = (n \<noteq> 0)"
| "truthy Ok_reply = True"
| "truthy Nil_reply = False"
| "truthy Error_reply = True"

section \<open>IdempotencyService\<close>

definition is_duplicate :: "int \<Rightarrow> uuid \<Rightarrow> redis \<Rightarrow> bool" where
  "is_duplicate now i r =
     (case fst (exec_cmd now (EXISTS (Event_seen i)) r) of
        Int_reply n \<Rightarrow> n > 0
      | _ \<Rightarrow> False)"

text \<open>\<open>mark_as_seen\<close>: \<open>True\<close> when the key was set, \<open>False\<close> when it existed.\<close>

definition mark_as_seen :: "int \<Rightarrow> int \<Rightarrow> uuid \<Rightarrow> redis \<Rightarrow> (exn + bool) \<times> redis" where
  "mark_as_seen ttl now i r =
     (case exec_cmd now (SET_NX_EX (Event_seen i) 1 ttl) r of
        (Error_reply, r') \<Rightarrow> (Inl ResponseError, r')
      | (x, r') \<Rightarrow> (Inr (x \<noteq> Nil_reply), r'))"

text \<open>The loop of \<open>check_batch\<close> over \<open>zip(event_ids, results)\<close>, appending to one of two lists.\<close>

fun partition_ids :: "(uuid \<times> reply) list \<Rightarrow> uuid list \<Rightarrow> uuid list \<Rightarrow> uuid list \<times> uuid list" where
  "partition_ids [] new_ids duplicate_ids = (new_ids, duplicate_ids)"
| "partition_ids ((i, x) # rest) new_ids duplicate_ids =
     (if truthy x
      then partition_ids rest new_ids (duplicate_ids @ [i])
      else partition_ids rest (new_ids @ [i]) duplicate_ids)"

definition check_batch ::
  "int \<Rightarrow> uuid list \<Rightarrow> redis \<Rightarrow> (exn + uuid list \<times> uuid list) \<times> redis" where
  "check_batch now event_ids r =
     (case pipeline_execute now (map (\<lambda>i. EXISTS (Event_seen i)) event_ids) r of
        (Inl e, r') \<Rightarrow> (Inl e, r')
      | (Inr results, r') \<Rightarrow> (Inr (partition_ids (zip event_ids results) [] []), r'))"

definition mark_batch_as_seen :: "int \<Rightarrow> int \<Rightarrow> uuid list \<Rightarrow> redis \<Rightarrow> (exn + unit) \<times> redis" where
  "mark_batch_as_seen ttl now event_ids r =
     (case pipeline_execute now (map (\<lambda>i. SET_NX_EX (Event_seen i) 1 ttl) event_ids) r of
        (Inl e, r') \<Rightarrow> (Inl e, r')
      | (Inr results, r') \<Rightarrow> (Inr (), r'))"

section \<open>RateLimiter\<close>

record settings =
  redis_idempotency_ttl :: int
  rate_limit_enabled :: bool
  rate_limit_requests :: int
  rate_limit_window :: int

text \<open>The values of \<open>app/core/config.py\<close> when the environment sets none.\<close>

definition default_settings :: settings where
  "default_settings =
     \<lparr>redis_idempotency_ttl = 86400, rate_limit_enabled = True,
      rate_limit_requests = 1000, rate_limit_window = 60\<rparr>"

text \<open>
  \<open>RateLimiter.is_allowed\<close>: the pair \<open>(is_allowed, remaining_requests)\<close>.
  \<open>max_requests\<close> and \<open>window\<close> are the instance's copies of the two settings.
\<close>

definition is_allowed :: "settings \<Rightarrow> int \<Rightarrow> string \<Rightarrow> redis \<Rightarrow> (exn + bool \<times> int) \<times> redis" where
  "is_allowed cfg now client_id r =
     (if \<not> rate_limit_enabled cfg then (Inr (True, rate_limit_requests cfg), r)
      else
        (case pipeline_execute now
                [INCR (Rate_limit client_id), EXPIRE (Rate_limit client_id) (rate_limit_window cfg)] r of
           (Inl e, r') \<Rightarrow> (Inl e, r')
         | (Inr results, r') \<Rightarrow>
             (case results of
                Int_reply current_count # _ \<Rightarrow>
                  (Inr (current_count \<le> rate_limit_requests cfg,
                        max 0 (rate_limit_requests cfg - current_count)), r')
              | _ \<Rightarrow> (Inl ResponseError, r'))))"

text \<open>
  \<open>app/api/dependencies.py\<close>, \<open>check_rate_limit\<close>. The request carries the value the
  response header \<open>X-RateLimit-Remaining\<close> is written from (\<open>request.state\<close>); a refused
  request is an \<open>HTTPException\<close> with status 429 and that header set to \<open>"0"\<close>.
\<close>

datatype http_exception = HTTPException nat "(string \<times> string) list"

datatype rate_outcome =
    Passed int
  | Refused int http_exception
  | Crashed exn

definition check_rate_limit :: "settings \<Rightarrow> int \<Rightarrow> string \<Rightarrow> redis \<Rightarrow> rate_outcome \<times> redis" where
  "check_rate_limit cfg now client_ip r =
     (case is_allowed cfg now client_ip r of
        (Inl e, r') \<Rightarrow> (Crashed e, r')
      | (Inr (allowed, remaining), r') \<Rightarrow>
          (if \<not> allowed
           then (Refused remaining (HTTPException 429 [(''X-RateLimit-Remaining'', ''0'')]), r')
           else (Passed remaining, r')))"

text \<open>
  A run of requests, each a client address and the time it arrives, through
  \<open>check_rate_limit\<close>; the outcomes in order.
\<close>

fun serve :: "settings \<Rightarrow> (string \<times> int) list \<Rightarrow> redis \<Rightarrow> (string \<times> rate_outcome) list" where
  "serve cfg [] r = []"
| "serve cfg ((c, t) # rest) r =
     (let (out, r') = check_rate_limit cfg t c r
      in (c, out) # serve cfg rest r')"

fun admitted :: "rate_outcome \<Rightarrow> bool" where
  "admitted (Passed n) = True"
| "admitted (Refused n h) = False"
| "admitted (Crashed e) = False"

section \<open>The event store\<close>

text \<open>
  The table \<open>events\<close> is the list of its rows in insertion order; \<open>event_id\<close> is unique.
  A session holds the committed table and the view of its open transaction.
  \<open>driver_raises\<close> says for which statements the database driver raises.
\<close>

type_synonym table = "event list"

record session =
  committed :: table
  working :: table

definition begin_session :: "table \<Rightarrow> session" where
  "begin_session db = \<lparr>committed = db, working = db\<rparr>"

definition commit :: "session \<Rightarrow> session" where
  "commit s = s\<lparr>committed := working s\<rparr>"

definition rollback :: "session \<Rightarrow> session" where
  "rollback s = s\<lparr>working := committed s\<rparr>"

text \<open>
  \<open>INSERT ... ON CONFLICT (event_id) DO NOTHING RETURNING id\<close>: the row count and the
  session after it, or the driver's exception.
\<close>

definition execute_insert :: "(event \<Rightarrow> bool) \<Rightarrow> event \<Rightarrow> session \<Rightarrow> exn + nat \<times> session" where
  "execute_insert driver_raises e s =
     (if driver_raises e then Inl DriverError
      else if event_id e \<in> set (map event_id (working s)) then Inr (0, s)
      else Inr (1, s\<lparr>working := working s @ [e]\<rparr>))"

text \<open>The loop of \<open>EventService.insert_events\<close>; the session is returned in both cases.\<close>

fun insert_loop ::
  "(event \<Rightarrow> bool) \<Rightarrow> event list \<Rightarrow> nat \<Rightarrow> nat \<Rightarrow> session \<Rightarrow> (exn + nat \<times> nat) \<times> session" where
  "insert_loop driver_raises [] inserted duplicates s = (Inr (inserted, duplicates), s)"
| "insert_loop driver_raises (e # es) inserted duplicates s =
     (case execute_insert driver_raises e s of
        Inl x \<Rightarrow> (Inl x, s)
      | Inr (rowcount, s') \<Rightarrow>
          (if rowcount > 0
           then insert_loop driver_raises es (inserted + 1) duplicates s'
           else insert_loop driver_raises es inserted (duplicates + 1) s'))"

definition insert_events ::
  "(event \<Rightarrow> bool) \<Rightarrow> event list \<Rightarrow> session \<Rightarrow> (exn + nat \<times> nat) \<times> session" where
  "insert_events driver_raises events s =
     (case insert_loop driver_raises events 0 0 s of
        (Inl x, s') \<Rightarrow> (Inl x, s')
      | (Inr counts, s') \<Rightarrow> (Inr counts, commit s'))"

text \<open>
  \<open>app/db/database.py\<close>, \<open>get_session\<close>: the body runs on a fresh session; an exception
  rolls the session back and is raised again; the session is closed in both cases, which
  leaves the committed table.
\<close>

definition get_session ::
  "(session \<Rightarrow> (exn + 'a) \<times> session) \<Rightarrow> table \<Rightarrow> (exn + 'a) \<times> table" where
  "get_session body db =
     (case body (begin_session db) of
        (Inl x, s) \<Rightarrow> (Inl x, committed (rollback s))
      | (Inr y, s) \<Rightarrow> (Inr y, committed s))"

section \<open>Analytics queries\<close>

definition DATE :: "int \<Rightarrow> int" where
  "DATE ts = ts div 86400"

definition midnight :: "int \<Rightarrow> int" where
  "midnight d = d * 86400"

text \<open>\<open>SELECT DISTINCT user_id FROM events WHERE DATE(occurred_at) = :d\<close>.\<close>

definition users_on :: "table \<Rightarrow> int \<Rightarrow> string list" where
  "users_on db d = remdups (map user_id (filter (\<lambda>e. DATE (occurred_at e) = d) db))"

text \<open>
  The bounds of the range query are Python dates, which the driver sends for a
  \<open>timestamptz\<close> parameter as the midnight that begins the date in the time zone of the
  application; \<open>DATE(occurred_at)\<close> is the day in the time zone of the store's session.
  \<open>zone_gap\<close> is the number of seconds by which the clock of the store's session is ahead
  of the application's clock, 0 when both run in one zone (offsets that do not change
  over the range of the query). On the store's clock the application's midnight of day
  \<open>d\<close> is the second \<open>midnight d + zone_gap\<close>.
\<close>

definition as_timestamp :: "int \<Rightarrow> int \<Rightarrow> int" where
  "as_timestamp zone_gap d = midnight d + zone_gap"

text \<open>
  \<open>EventService.get_dau\<close>: the rows with \<open>from_dt \<le> occurred_at < to_dt\<close>, where \<open>to_dt\<close> is
  the day after \<open>to_date\<close>, grouped by \<open>DATE(occurred_at)\<close>, one result row
  \<open>(date, COUNT(DISTINCT user_id))\<close> per group, ordered by date.
\<close>

definition get_dau :: "int \<Rightarrow> table \<Rightarrow> int \<Rightarrow> int \<Rightarrow> (int \<times> nat) list" where
  "get_dau zone_gap db from_date to_date =
     (let from_dt = from_date;
          to_dt = to_date + 1;
          rows = filter (\<lambda>e. as_timestamp zone_gap from_dt \<le> occurred_at e \<and>
                             occurred_at e < as_timestamp zone_gap to_dt) db;
          groups = sort (remdups (map (\<lambda>e. DATE (occurred_at e)) rows))
      in map (\<lambda>d. (d, length (remdups (map user_id
                                  (filter (\<lambda>e. DATE (occurred_at e) = d) rows))))) groups)"


text \<open>
  \<open>RetentionCohort\<close> declares the fields of windows 0 to 3 and no others. The rate is a
  Python float; \<open>'r\<close> is the type of rates and the function \<open>rate\<close> below stands for
  \<open>round(retained / cohort_size * 100, 2)\<close>, which the model does not compute.
\<close>

record 'r retention_cohort =
  cohort_start :: int
  window_0 :: nat
  window_1 :: "nat option"
  window_2 :: "nat option"
  window_3 :: "nat option"
  retention_rate_1 :: "'r option"
  retention_rate_2 :: "'r option"
  retention_rate_3 :: "'r option"

text \<open>
  \<open>setattr(cohort, f"window_{k}", v)\<close> and \<open>setattr(cohort, f"retention_rate_{k}", v)\<close>.
  A pydantic model without \<open>extra = "allow"\<close> refuses a name that is not one of its
  fields with a \<open>ValueError\<close>.
\<close>

definition setattr_window :: "nat \<Rightarrow> nat \<Rightarrow> 'r retention_cohort \<Rightarrow> exn + 'r retention_cohort" where
  "setattr_window k v c =
     (if k = 0 then Inr (c\<lparr>window_0 := v\<rparr>)
      else if k = 1 then Inr (c\<lparr>window_1 := Some v\<rparr>)
      else if k = 2 then Inr (c\<lparr>window_2 := Some v\<rparr>)
      else if k = 3 then Inr (c\<lparr>window_3 := Some v\<rparr>)
      else Inl ValueError)"

definition setattr_retention_rate :: "nat \<Rightarrow> 'r \<Rightarrow> 'r retention_cohort \<Rightarrow> exn + 'r retention_cohort" where
  "setattr_retention_rate k v c =
     (if k = 1 then Inr (c\<lparr>retention_rate_1 := Some v\<rparr>)
      else if k = 2 then Inr (c\<lparr>retention_rate_2 := Some v\<rparr>)
      else if k = 3 then Inr (c\<lparr>retention_rate_3 := Some v\<rparr>)
      else Inl ValueError)"

text \<open>The date of window \<open>k\<close>: \<open>timedelta(days=k)\<close> for \<open>"daily"\<close>, \<open>timedelta(weeks=k)\<close> otherwise.\<close>

definition window_date :: "string \<Rightarrow> int \<Rightarrow> nat \<Rightarrow> int" where
  "window_date window_type start_date k =
     (if window_type = ''daily'' then start_date + int k else start_date + 7 * int k)"

text \<open>The rows of the window query: the distinct users of the day that are in the cohort.\<close>

definition retained_on :: "table \<Rightarrow> string list \<Rightarrow> int \<Rightarrow> string list" where
  "retained_on db cohort_users d =
     remdups (map user_id
       (filter (\<lambda>e. DATE (occurred_at e) = d \<and> user_id e \<in> set cohort_users) db))"

text \<open>The loop \<open>for window in range(1, windows + 1)\<close> of \<open>get_retention\<close>.\<close>

fun retention_loop ::
  "(nat \<Rightarrow> nat \<Rightarrow> 'r) \<Rightarrow> table \<Rightarrow> string \<Rightarrow> int \<Rightarrow> string list \<Rightarrow> nat list \<Rightarrow>
   'r retention_cohort \<Rightarrow> exn + 'r retention_cohort" where
  "retention_loop rate db window_type start_date cohort_users [] cohort = Inr cohort"
| "retention_loop rate db window_type start_date cohort_users (k # ks) cohort =
     (let retained_users =
            length (retained_on db cohort_users (window_date window_type start_date k))
      in case setattr_window k retained_users cohort of
           Inl x \<Rightarrow> Inl x
         | Inr c1 \<Rightarrow>
             (case setattr_retention_rate k (rate retained_users (length cohort_users)) c1 of
                Inl x \<Rightarrow> Inl x
              | Inr c2 \<Rightarrow> retention_loop rate db window_type start_date cohort_users ks c2))"

definition get_retention ::
  "(nat \<Rightarrow> nat \<Rightarrow> 'r) \<Rightarrow> table \<Rightarrow> int \<Rightarrow> int \<Rightarrow> string \<Rightarrow> exn + 'r retention_cohort list" where
  "get_retention rate db start_date windows window_type =
     (let cohort_users = users_on db start_date
      in if cohort_users = [] then Inr []
         else
           (case retention_loop rate db window_type start_date cohort_users
                   [1 ..< nat (windows + 1)]
                   \<lparr>cohort_start = start_date, window_0 = length cohort_users,
                    window_1 = None, window_2 = None, window_3 = None,
                    retention_rate_1 = None, retention_rate_2 = None, retention_rate_3 = None\<rparr> of
              Inl x \<Rightarrow> Inl x
            | Inr cohort \<Rightarrow> Inr [cohort]))"

section \<open>The system: cache, stream, store, metrics\<close>

text \<open>
  The labelled Prometheus counters of \<open>app/core/metrics.py\<close> that the ingest handler and
  the worker increment.
\<close>

record metrics =
  events_received_total :: "string \<Rightarrow> nat"
  events_ingested_total :: "string \<Rightarrow> nat"
  events_duplicate_total :: nat
  events_failed_total :: "string \<Rightarrow> nat"

definition inc :: "('a \<Rightarrow> nat) \<Rightarrow> 'a \<Rightarrow> ('a \<Rightarrow> nat)" where
  "inc f k = f(k := f k + 1)"

text \<open>
  What the decoding steps of \<open>process_event\<close> make of the bytes of a message:
  \<open>msg.data.decode()\<close> raises \<open>UnicodeDecodeError\<close>; \<open>json.loads\<close> raises
  \<open>JSONDecodeError\<close>; the JSON value is not an object, and \<open>event_data.get\<close> raises
  \<open>AttributeError\<close>; the object does not validate as an \<open>EventCreate\<close>, which raises
  \<open>ValidationError\<close> (the text \<open>{}\<close> is such a payload: the required fields are missing);
  or the payload is the JSON form of an event.
\<close>

datatype payload =
    Not_utf8
  | Not_json
  | Json_not_object
  | Json_not_event
  | Json_event event

fun decode :: "payload \<Rightarrow> exn + event" where
  "decode Not_utf8 = Inl UnicodeDecodeError"
| "decode Not_json = Inl JSONDecodeError"
| "decode Json_not_object = Inl AttributeError"
| "decode Json_not_event = Inl ValidationError"
| "decode (Json_event e) = Inr e"

record message =
  data :: payload
  delivered :: nat

record world =
  redis :: redis
  nats :: "message list"
  db :: table
  metrics :: metrics

text \<open>
  What lies outside the program: for which messages the broker refuses a publish, and
  for which statements the database driver raises.
\<close>

record env =
  publish_raises :: "event \<Rightarrow> bool"
  driver_raises :: "event \<Rightarrow> bool"

section \<open>NATSPublisher\<close>

definition publish_event :: "env \<Rightarrow> event \<Rightarrow> message list \<Rightarrow> (exn + unit) \<times> message list" where
  "publish_event en e q =
     (if publish_raises en e then (Inl PublishError, q)
      else (Inr (), q @ [\<lparr>data = Json_event e, delivered = 0\<rparr>]))"

fun publish_batch :: "env \<Rightarrow> event list \<Rightarrow> message list \<Rightarrow> (exn + unit) \<times> message list" where
  "publish_batch en [] q = (Inr (), q)"
| "publish_batch en (e # es) q =
     (case publish_event en e q of
        (Inl x, q') \<Rightarrow> (Inl x, q')
      | (Inr u, q') \<Rightarrow> publish_batch en es q')"

section \<open>The ingest handler\<close>

datatype response_message = All_events_were_duplicates | Accepted_events_for_processing nat

record event_response =
  accepted :: nat
  duplicates :: nat
  failed :: nat
  message :: response_message

text \<open>The handler's \<open>except Exception\<close>: the failure counter and status 500.\<close>

definition ingestion_error :: "world \<Rightarrow> (http_exception + event_response) \<times> world" where
  "ingestion_error w =
     (Inl (HTTPException 500 []),
      w\<lparr>metrics := (metrics w)\<lparr>events_failed_total :=
           inc (events_failed_total (metrics w)) ''ingestion_error''\<rparr>\<rparr>)"

text \<open>The loop \<open>for event in batch.events: events_received_total.labels(...).inc()\<close>.\<close>

fun count_received :: "event list \<Rightarrow> (string \<Rightarrow> nat) \<Rightarrow> (string \<Rightarrow> nat)" where
  "count_received [] f = f"
| "count_received (e # es) f = count_received es (inc f (event_type e))"

text \<open>
  \<open>app/api/routes/events.py\<close>, \<open>ingest_events\<close>, on a validated batch at time \<open>now\<close>.
  \<open>Inr\<close> is the response sent with status 202.
\<close>

definition ingest_events ::
  "env \<Rightarrow> settings \<Rightarrow> int \<Rightarrow> event list \<Rightarrow> world \<Rightarrow> (http_exception + event_response) \<times> world" where
  "ingest_events en cfg now batch w =
     (let event_ids = map event_id batch
      in case check_batch now event_ids (redis w) of
           (Inl x, r1) \<Rightarrow> ingestion_error (w\<lparr>redis := r1\<rparr>)
         | (Inr (new_ids, duplicate_ids), r1) \<Rightarrow>
             (let new_events = filter (\<lambda>e. event_id e \<in> set new_ids) batch;
                  m1 = (metrics w)\<lparr>
                         events_received_total := count_received batch (events_received_total (metrics w)),
                         events_duplicate_total := events_duplicate_total (metrics w) + length duplicate_ids\<rparr>;
                  w1 = w\<lparr>redis := r1, metrics := m1\<rparr>
              in if new_events = []
                 then (Inr \<lparr>accepted = 0, duplicates = length duplicate_ids, failed = 0,
                            message = All_events_were_duplicates\<rparr>, w1)
                 else
                   (case mark_batch_as_seen (redis_idempotency_ttl cfg) now new_ids r1 of
                      (Inl x, r2) \<Rightarrow> ingestion_error (w1\<lparr>redis := r2\<rparr>)
                    | (Inr u, r2) \<Rightarrow>
                        (case publish_batch en new_events (nats w1) of
                           (Inl x, q) \<Rightarrow> ingestion_error (w1\<lparr>redis := r2, nats := q\<rparr>)
                         | (Inr u', q) \<Rightarrow>
                             (Inr \<lparr>accepted = length new_events,
                                   duplicates = length duplicate_ids, failed = 0,
                                   message = Accepted_events_for_processing (length new_events)\<rparr>,
                              w1\<lparr>redis := r2, nats := q\<rparr>)))))"

section \<open>The worker\<close>

datatype ack = Ack | Term | Nak int

text \<open>
  \<open>app/workers/event_processor.py\<close>, \<open>process_event\<close>: what the worker tells the broker
  about the message, and the system after it. The three branches are the body of the
  \<open>try\<close>, \<open>except json.JSONDecodeError\<close> and \<open>except Exception\<close>. The calls on the
  message itself (\<open>ack\<close>, \<open>term\<close>, \<open>nak\<close>) are taken to succeed.
\<close>

definition process_event :: "env \<Rightarrow> message \<Rightarrow> world \<Rightarrow> ack \<times> world" where
  "process_event en msg w =
     (let attempt =
            (case decode (data msg) of
               Inl x \<Rightarrow> (Inl x, db w)
             | Inr e \<Rightarrow>
                 (case get_session (insert_events (driver_raises en) [e]) (db w) of
                    (Inl x, db') \<Rightarrow> (Inl x, db')
                  | (Inr (inserted, dups), db') \<Rightarrow> (Inr (e, inserted), db')))
      in case attempt of
           (Inr (e, inserted), db') \<Rightarrow>
             (Ack,
              w\<lparr>db := db',
                metrics := (if inserted > 0
                            then (metrics w)\<lparr>events_ingested_total :=
                                   inc (events_ingested_total (metrics w)) (event_type e)\<rparr>
                            else metrics w)\<rparr>)
         | (Inl JSONDecodeError, db') \<Rightarrow>
             (Term,
              w\<lparr>db := db',
                metrics := (metrics w)\<lparr>events_failed_total :=
                             inc (events_failed_total (metrics w)) ''decode_error''\<rparr>\<rparr>)
         | (Inl x, db') \<Rightarrow>
             (Nak 5,
              w\<lparr>db := db',
                metrics := (metrics w)\<lparr>events_failed_total :=
                             inc (events_failed_total (metrics w)) ''processing_error''\<rparr>\<rparr>))"

text \<open>
  One delivery: the worker takes the oldest message of the stream. The durable consumer
  of \<open>run_worker\<close> is configured with \<open>max_deliver = 3\<close>: an acknowledged or terminated
  message leaves the stream, a message answered with \<open>nak\<close> comes back until it has been
  delivered three times.
\<close>

definition worker_step :: "env \<Rightarrow> world \<Rightarrow> world" where
  "worker_step en w =
     (case nats w of
        [] \<Rightarrow> w
      | msg # rest \<Rightarrow>
          (case process_event en msg w of
             (Nak delay, w') \<Rightarrow>
               (if delivered msg + 1 < 3
                then w'\<lparr>nats := rest @ [msg\<lparr>delivered := delivered msg + 1\<rparr>]\<rparr>
                else w'\<lparr>nats := rest\<rparr>)
           | (a, w') \<Rightarrow> w'\<lparr>nats := rest\<rparr>))"

section \<open>Runs of cache operations\<close>

text \<open>
  The calls the program makes on the Redis store, each at its time, to state what holds
  after any sequence of them. \<open>apply_op\<close> is the store after one call.
\<close>

datatype cache_op =
    Mark_as_seen uuid
  | Mark_batch_as_seen "uuid list"
  | Check_batch "uuid list"
  | Is_duplicate uuid
  | Is_allowed string

fun apply_op :: "settings \<Rightarrow> int \<Rightarrow> cache_op \<Rightarrow> redis \<Rightarrow> redis" where
  "apply_op cfg now (Mark_as_seen i) r = snd (mark_as_seen (redis_idempotency_ttl cfg) now i r)"
| "apply_op cfg now (Mark_batch_as_seen ids) r =
     snd (mark_batch_as_seen (redis_idempotency_ttl cfg) now ids r)"
| "apply_op cfg now (Check_batch ids) r = snd (check_batch now ids r)"
| "apply_op cfg now (Is_duplicate i) r = r"
| "apply_op cfg now (Is_allowed c) r = snd (is_allowed cfg now c r)"

fun run_ops :: "settings \<Rightarrow> (int \<times> cache_op) list \<Rightarrow> redis \<Rightarrow> redis" where
  "run_ops cfg [] r = r"
| "run_ops cfg ((t, oper) # rest) r = run_ops cfg rest (apply_op cfg t oper r)"

text \<open>Whether a call asks the cache to mark the identifier.\<close>

fun marks :: "uuid \<Rightarrow> cache_op \<Rightarrow> bool" where
  "marks i (Mark_as_seen j) = (i = j)"
| "marks i (Mark_batch_as_seen ids) = (i \<in> set ids)"
| "marks i (Check_batch ids) = False"
| "marks i (Is_duplicate j) = False"
| "marks i (Is_allowed c) = False"

text \<open>The commands a call can send, as far as one key of the \<open>event:seen:\<close> family is concerned.\<close>

fun writes_key :: "key \<Rightarrow> cmd \<Rightarrow> bool" where
  "writes_key k0 (EXISTS k) = False"
| "writes_key k0 (SET_NX_EX k v ttl) = (k = k0)"
| "writes_key k0 (INCR k) = (k = k0)"
| "writes_key k0 (EXPIRE k secs) = (k = k0)"

text \<open>The store after a run of requests through \<open>check_rate_limit\<close>.\<close>

fun after_calls :: "settings \<Rightarrow> (string \<times> int) list \<Rightarrow> redis \<Rightarrow> redis" where
  "after_calls cfg [] r = r"
| "after_calls cfg ((c, t) # rest) r = after_calls cfg rest (snd (check_rate_limit cfg t c r))"

text \<open>How many requests of a client a run admitted.\<close>

definition admitted_count :: "string \<Rightarrow> (string \<times> rate_outcome) list \<Rightarrow> nat" where
  "admitted_count c outs = length (filter (\<lambda>(c', out). c' = c \<and> admitted out) outs)"

text \<open>
  The value of a client's counter at a time: 0 when the key is absent or has expired.
  Counters are created by \<open>INCR\<close> and only grow: they are positive.
\<close>

definition counter :: "int \<Rightarrow> redis \<Rightarrow> string \<Rightarrow> int" where
  "counter now r c =
     (if live now r (Rate_limit c)
      then (case r (Rate_limit c) of Some (v, e) \<Rightarrow> v | None \<Rightarrow> 0)
      else 0)"

definition counters_positive :: "redis \<Rightarrow> bool" where
  "counters_positive r = (\<forall>c v e. r (Rate_limit c) = Some (v, e) \<longrightarrow> 0 < v)"

text \<open>How many requests of a run are a client's.\<close>

definition calls_of :: "string \<Rightarrow> (string \<times> int) list \<Rightarrow> nat" where
  "calls_of c calls = length (filter (\<lambda>(c', t). c' = c) calls)"

section \<open>Sample data\<close>

text \<open>Concrete events, surroundings and states for the examples.\<close>

definition sample_event :: "uuid \<Rightarrow> string \<Rightarrow> string \<Rightarrow> int \<Rightarrow> event" where
  "sample_event i u ty ts =
     \<lparr>event_id = i, user_id = u, event_type = ty, occurred_at = ts, properties = ''{}''\<rparr>"

definition reliable :: env where
  "reliable = \<lparr>publish_raises = (\<lambda>e. False), driver_raises = (\<lambda>e. False)\<rparr>"

definition no_metrics :: metrics where
  "no_metrics =
     \<lparr>events_received_total = (\<lambda>l. 0), events_ingested_total = (\<lambda>l. 0),
      events_duplicate_total = 0, events_failed_total = (\<lambda>l. 0)\<rparr>"

definition empty_world :: world where
  "empty_world = \<lparr>redis = Map.empty, nats = [], db = [], metrics = no_metrics\<rparr>"

text \<open>
  A store for the retention query: \<open>u1\<close> and \<open>u2\<close> are active on day 19723, \<open>u1\<close> and
  \<open>u3\<close> on the next day, nobody on the day after.
\<close>

definition retention_sample :: table where
  "retention_sample =
     [sample_event 1 ''u1'' ''click'' 1704070800, sample_event 2 ''u2'' ''click'' 1704074400,
      sample_event 3 ''u1'' ''view'' 1704078000, sample_event 4 ''u1'' ''view'' 1704157200,
      sample_event 5 ''u3'' ''view'' 1704160800]"

section \<open>Properties of the dedup cache\<close>


lemma live_mono: "live t r k \<Longrightarrow> t' \<le> t \<Longrightarrow> live t' r k"
  by (auto simp: live_def split: option.splits)

lemma live_cong: "r k = r' k \<Longrightarrow> live t r k = live t r' k"
  by (simp add: live_def)

lemma live_None: "r k = None \<Longrightarrow> \<not> live t r k"
  by (simp add: live_def)

lemma run_cmds_exists:
  "run_cmds now (map (\<lambda>i. EXISTS (f i)) ids) r =
     (map (\<lambda>i. Int_reply (if live now r (f i) then 1 else 0)) ids, r)"
  by (induction ids) auto

lemma partition_ids_filter:
  "partition_ids (zip ids (map (\<lambda>i. Int_reply (if P i then 1 else 0)) ids)) ns ds =
     (ns @ filter (\<lambda>i. \<not> P i) ids, ds @ filter P ids)"
  by (induction ids arbitrary: ns ds) auto

lemma check_batch_eq:
  "check_batch now ids r =
     (Inr (filter (\<lambda>i. \<not> live now r (Event_seen i)) ids,
           filter (\<lambda>i. live now r (Event_seen i)) ids), r)"
proof -
  have "Error_reply \<notin> set (map (\<lambda>i. Int_reply (if live now r (Event_seen i) then 1 else 0)) ids)"
    by auto
  then show ?thesis
    using partition_ids_filter [of ids "\<lambda>i. live now r (Event_seen i)" "[]" "[]"]
    by (simp add: check_batch_def pipeline_execute_def run_cmds_exists del: set_map)
qed

lemma is_duplicate_live: "is_duplicate now i r = live now r (Event_seen i)"
  by (simp add: is_duplicate_def)

lemma count_list_filter:
  "count_list (filter P xs) i = (if P i then count_list xs i else 0)"
  by (induction xs) auto

text \<open>
  Claim C10. \<open>check_batch\<close> answers with two lists and leaves the store as it was. The
  duplicates are the identifiers of the input whose key exists at the time of the call,
  the new ones are the others, each list in the order of the input; so the lengths add
  up to the length of the input, every occurrence is in exactly one list, and no
  identifier is in both: all lookups read the same store.
\<close>

theorem check_batch_partitions_input:
  "\<exists>new_ids duplicate_ids.
     check_batch now ids r = (Inr (new_ids, duplicate_ids), r) \<and>
     new_ids = filter (\<lambda>i. \<not> is_duplicate now i r) ids \<and>
     duplicate_ids = filter (\<lambda>i. is_duplicate now i r) ids \<and>
     length new_ids + length duplicate_ids = length ids \<and>
     (\<forall>i. count_list new_ids i + count_list duplicate_ids i = count_list ids i) \<and>
     set new_ids \<inter> set duplicate_ids = {}"
proof -
  let ?P = "\<lambda>i. live now r (Event_seen i)"
  have len: "length (filter (\<lambda>i. \<not> ?P i) ids) + length (filter ?P ids) = length ids"
    using sum_length_filter_compl [of ?P ids] by simp
  have cnt: "\<forall>i. count_list (filter (\<lambda>i. \<not> ?P i) ids) i + count_list (filter ?P ids) i
               = count_list ids i"
    by (simp add: count_list_filter)
  have dis: "set (filter (\<lambda>i. \<not> ?P i) ids) \<inter> set (filter ?P ids) = {}"
    by auto
  show ?thesis
    unfolding is_duplicate_live check_batch_eq using len cnt dis by blast
qed

lemma exec_cmd_frame: "\<not> writes_key k0 c \<Longrightarrow> snd (exec_cmd now c r) k0 = r k0"
  by (cases c) (auto split: option.splits)

lemma run_cmds_frame:
  "\<forall>c \<in> set cs. \<not> writes_key k0 c \<Longrightarrow> snd (run_cmds now cs r) k0 = r k0"
proof (induction cs arbitrary: r)
  case Nil
  then show ?case by simp
next
  case (Cons c cs)
  have "snd (run_cmds now (c # cs) r) = snd (run_cmds now cs (snd (exec_cmd now c r)))"
    by (simp add: split_beta)
  then show ?case using Cons exec_cmd_frame [of k0 c now r] by simp
qed

lemma set_live_keeps:
  "live now r k0 \<Longrightarrow> snd (exec_cmd now (SET_NX_EX k v ttl) r) k0 = r k0"
  by auto

lemma set_run_keeps:
  "live now r k0 \<Longrightarrow> snd (run_cmds now (map (\<lambda>i. SET_NX_EX (f i) v ttl) ids) r) k0 = r k0"
proof (induction ids arbitrary: r)
  case Nil
  then show ?case by simp
next
  case (Cons j ids)
  let ?r' = "snd (exec_cmd now (SET_NX_EX (f j) v ttl) r)"
  have e: "?r' k0 = r k0" using Cons.prems by (rule set_live_keeps)
  then have "live now ?r' k0" using Cons.prems live_cong by metis
  then have "snd (run_cmds now (map (\<lambda>i. SET_NX_EX (f i) v ttl) ids) ?r') k0 = ?r' k0"
    by (rule Cons.IH)
  then show ?case using e by (simp add: split_beta)
qed

lemma set_run_marks:
  assumes "0 < ttl" "i \<in> set ids"
  shows "snd (run_cmds now (map (\<lambda>i. SET_NX_EX (Event_seen i) v ttl) ids) r) (Event_seen i) =
           (if live now r (Event_seen i) then r (Event_seen i) else Some (v, Some (now + ttl)))"
  using assms(2)
proof (induction ids arbitrary: r)
  case Nil
  then show ?case by simp
next
  case (Cons j ids)
  let ?k = "Event_seen i"
  let ?r' = "snd (exec_cmd now (SET_NX_EX (Event_seen j) v ttl) r)"
  have step: "snd (run_cmds now (map (\<lambda>i. SET_NX_EX (Event_seen i) v ttl) (j # ids)) r)
                = snd (run_cmds now (map (\<lambda>i. SET_NX_EX (Event_seen i) v ttl) ids) ?r')"
    by (simp add: split_beta)
  show ?case
  proof (cases "live now r ?k")
    case True
    then show ?thesis using set_run_keeps [of now r ?k Event_seen v ttl "j # ids"] by simp
  next
    case False
    show ?thesis
    proof (cases "j = i")
      case True
      then have v: "?r' ?k = Some (v, Some (now + ttl))" using False assms(1) by simp
      then have "live now ?r' ?k" using assms(1) by (simp add: live_def)
      then have "snd (run_cmds now (map (\<lambda>i. SET_NX_EX (Event_seen i) v ttl) ids) ?r') ?k = ?r' ?k"
        by (rule set_run_keeps)
      then show ?thesis using step v False by simp
    next
      case ji: False
      then have e: "?r' ?k = r ?k" by (intro exec_cmd_frame) simp
      then have nl: "\<not> live now ?r' ?k" using False live_cong by metis
      have "i \<in> set ids" using Cons.prems ji by auto
      from Cons.IH [OF this, of ?r'] show ?thesis using step nl False by simp
    qed
  qed
qed

lemma set_run_replies_ok:
  "0 < ttl \<Longrightarrow> Error_reply \<notin> set (fst (run_cmds now (map (\<lambda>i. SET_NX_EX (f i) v ttl) ids) r))"
  by (induction ids arbitrary: r) (auto simp: split_beta)

lemma set_run_replies_err:
  "ttl \<le> 0 \<Longrightarrow> run_cmds now (map (\<lambda>i. SET_NX_EX (f i) v ttl) ids) r = (map (\<lambda>i. Error_reply) ids, r)"
  by (induction ids arbitrary: r) auto

lemma mark_batch_as_seen_eq:
  "mark_batch_as_seen ttl now ids r =
     (if 0 < ttl \<or> ids = []
      then (Inr (), snd (run_cmds now (map (\<lambda>i. SET_NX_EX (Event_seen i) 1 ttl) ids) r))
      else (Inl ResponseError, r))"
proof (cases "0 < ttl")
  case True
  then show ?thesis
    using set_run_replies_ok [of ttl now Event_seen 1 ids r]
    by (simp add: mark_batch_as_seen_def pipeline_execute_def split_beta)
next
  case False
  then have "ttl \<le> 0" by simp
  from set_run_replies_err [OF this, of now Event_seen 1 ids r] False show ?thesis
    by (cases ids) (simp_all add: mark_batch_as_seen_def pipeline_execute_def)
qed

lemma mark_as_seen_eq:
  "mark_as_seen ttl now i r =
     (if ttl \<le> 0 then (Inl ResponseError, r)
      else if live now r (Event_seen i) then (Inr False, r)
      else (Inr True, r(Event_seen i \<mapsto> (1, Some (now + ttl)))))"
  by (simp add: mark_as_seen_def)

lemma is_allowed_state:
  "snd (is_allowed cfg now c r) =
     (if rate_limit_enabled cfg
      then snd (run_cmds now [INCR (Rate_limit c), EXPIRE (Rate_limit c) (rate_limit_window cfg)] r)
      else r)"
  by (simp add: is_allowed_def pipeline_execute_def split_beta Let_def
           split: sum.splits list.splits reply.splits prod.splits)

lemma apply_op_keeps_live:
  assumes "live now r (Event_seen i)"
  shows "apply_op cfg now oper r (Event_seen i) = r (Event_seen i)"
proof (cases oper)
  case (Mark_as_seen j)
  then show ?thesis using assms by (auto simp: mark_as_seen_eq)
next
  case (Mark_batch_as_seen ids)
  then show ?thesis
    using assms set_run_keeps [of now r "Event_seen i" Event_seen 1 _ ids]
    by (simp add: mark_batch_as_seen_eq)
next
  case (Check_batch ids)
  then show ?thesis by (simp add: check_batch_eq)
next
  case (Is_duplicate j)
  then show ?thesis by simp
next
  case (Is_allowed c)
  have "snd (run_cmds now [INCR (Rate_limit c), EXPIRE (Rate_limit c) (rate_limit_window cfg)] r)
          (Event_seen i) = r (Event_seen i)"
    by (rule run_cmds_frame) simp
  then show ?thesis using Is_allowed by (simp add: is_allowed_state)
qed

lemma run_ops_keeps_live:
  "live t r (Event_seen i) \<Longrightarrow> \<forall>(t', oper) \<in> set ops. t' \<le> t \<Longrightarrow>
     run_ops cfg ops r (Event_seen i) = r (Event_seen i)"
proof (induction ops arbitrary: r)
  case Nil
  then show ?case by simp
next
  case (Cons a ops)
  obtain t' oper where a: "a = (t', oper)" by (cases a)
  have le: "t' \<le> t" using Cons.prems(2) a by simp
  then have "live t' r (Event_seen i)" using Cons.prems(1) live_mono by blast
  then have e: "apply_op cfg t' oper r (Event_seen i) = r (Event_seen i)"
    by (rule apply_op_keeps_live)
  then have "live t (apply_op cfg t' oper r) (Event_seen i)"
    using Cons.prems(1) live_cong by metis
  then have "run_ops cfg ops (apply_op cfg t' oper r) (Event_seen i)
               = apply_op cfg t' oper r (Event_seen i)"
    using Cons.prems(2) by (intro Cons.IH) auto
  then show ?case using a e by simp
qed

lemma set_run_other:
  "i \<notin> set ids \<Longrightarrow>
     snd (run_cmds now (map (\<lambda>i. SET_NX_EX (Event_seen i) v ttl) ids) r) (Event_seen i) = r (Event_seen i)"
  by (rule run_cmds_frame) auto

lemma apply_op_unmarked:
  assumes "\<not> marks i oper"
  shows "apply_op cfg now oper r (Event_seen i) = r (Event_seen i)"
proof (cases oper)
  case (Mark_as_seen j)
  then show ?thesis using assms by (auto simp: mark_as_seen_eq)
next
  case (Mark_batch_as_seen ids)
  then show ?thesis using assms set_run_other [of i ids now 1 _ r]
    by (simp add: mark_batch_as_seen_eq)
next
  case (Check_batch ids)
  then show ?thesis by (simp add: check_batch_eq)
next
  case (Is_duplicate j)
  then show ?thesis by simp
next
  case (Is_allowed c)
  have "snd (run_cmds now [INCR (Rate_limit c), EXPIRE (Rate_limit c) (rate_limit_window cfg)] r)
          (Event_seen i) = r (Event_seen i)"
    by (rule run_cmds_frame) simp
  then show ?thesis using Is_allowed by (simp add: is_allowed_state)
qed

lemma run_ops_unmarked:
  "\<forall>(t', oper) \<in> set ops. \<not> marks i oper \<Longrightarrow>
     run_ops cfg ops r (Event_seen i) = r (Event_seen i)"
proof (induction ops arbitrary: r)
  case Nil
  then show ?case by simp
next
  case (Cons a ops)
  obtain t' oper where a: "a = (t', oper)" by (cases a)
  then have "\<not> marks i oper" using Cons.prems by simp
  then have "apply_op cfg t' oper r (Event_seen i) = r (Event_seen i)"
    by (rule apply_op_unmarked)
  moreover have "run_ops cfg ops (apply_op cfg t' oper r) (Event_seen i)
                   = apply_op cfg t' oper r (Event_seen i)"
    using Cons.prems by (intro Cons.IH) auto
  ultimately show ?case using a by simp
qed

lemma marked_entry:
  assumes "mark_as_seen ttl t0 i r = (Inr b, r1) \<or>
           (mark_batch_as_seen ttl t0 marked r = (Inr (), r1) \<and> i \<in> set marked)"
  shows "0 < ttl \<and>
         r1 (Event_seen i) =
           (if live t0 r (Event_seen i) then r (Event_seen i) else Some (1, Some (t0 + ttl)))"
  using assms
proof
  assume "mark_as_seen ttl t0 i r = (Inr b, r1)"
  then show ?thesis by (auto simp: mark_as_seen_eq split: if_splits)
next
  assume h: "mark_batch_as_seen ttl t0 marked r = (Inr (), r1) \<and> i \<in> set marked"
  then have m: "i \<in> set marked" and ne: "marked \<noteq> []" by auto
  from h ne have pos: "0 < ttl" by (auto simp: mark_batch_as_seen_eq split: if_splits)
  from h pos have "r1 = snd (run_cmds t0 (map (\<lambda>i. SET_NX_EX (Event_seen i) 1 ttl) marked) r)"
    by (simp add: mark_batch_as_seen_eq)
  then show ?thesis using set_run_marks [OF pos m, of t0 1 r] pos by simp
qed

text \<open>
  Claim C3. After \<open>mark_as_seen\<close> or \<open>mark_batch_as_seen\<close> has marked an identifier at
  time \<open>t0\<close>, its key exists, and it expires \<open>ttl\<close> seconds later when the call created
  it. At every time \<open>t\<close> at which that key has not expired, and after any calls made on
  the cache up to then, \<open>is_duplicate\<close> holds and \<open>check_batch\<close> on a list containing the
  identifier puts it among the duplicates and not among the new ones. Starting from the
  empty cache, an identifier that no call has asked to mark is never reported as a
  duplicate, neither by \<open>is_duplicate\<close> nor by \<open>check_batch\<close>.
\<close>

theorem marked_id_is_duplicate_until_expiry:
  "((mark_as_seen (redis_idempotency_ttl cfg) t0 i r = (Inr b, r1) \<or>
     (mark_batch_as_seen (redis_idempotency_ttl cfg) t0 marked r = (Inr (), r1) \<and> i \<in> set marked)) \<longrightarrow>
      live t0 r1 (Event_seen i) \<and>
      (\<not> live t0 r (Event_seen i) \<longrightarrow>
         (\<forall>t. live t r1 (Event_seen i) = (t < t0 + redis_idempotency_ttl cfg))) \<and>
      (\<forall>t ops ids. live t r1 (Event_seen i) \<and> (\<forall>(t', oper) \<in> set ops. t' \<le> t) \<and> i \<in> set ids \<longrightarrow>
         is_duplicate t i (run_ops cfg ops r1) \<and>
         (\<exists>new_ids duplicate_ids r2.
            check_batch t ids (run_ops cfg ops r1) = (Inr (new_ids, duplicate_ids), r2) \<and>
            i \<in> set duplicate_ids \<and> i \<notin> set new_ids))) \<and>
   ((\<forall>(t', oper) \<in> set ops0. \<not> marks i oper) \<longrightarrow>
      \<not> is_duplicate t1 i (run_ops cfg ops0 Map.empty) \<and>
      (\<exists>new_ids duplicate_ids r2.
         check_batch t1 ids1 (run_ops cfg ops0 Map.empty) = (Inr (new_ids, duplicate_ids), r2) \<and>
         i \<notin> set duplicate_ids))"
proof (intro conjI impI)
  assume h: "mark_as_seen (redis_idempotency_ttl cfg) t0 i r = (Inr b, r1) \<or>
     (mark_batch_as_seen (redis_idempotency_ttl cfg) t0 marked r = (Inr (), r1) \<and> i \<in> set marked)"
  from marked_entry [OF h] have pos: "0 < redis_idempotency_ttl cfg"
    and ent: "r1 (Event_seen i) =
           (if live t0 r (Event_seen i) then r (Event_seen i)
            else Some (1, Some (t0 + redis_idempotency_ttl cfg)))" by auto
  show "live t0 r1 (Event_seen i)"
    using ent pos by (auto simp: live_def split: if_splits)
  show "\<forall>t. live t r1 (Event_seen i) = (t < t0 + redis_idempotency_ttl cfg)"
    if "\<not> live t0 r (Event_seen i)"
    using that ent by (simp add: live_def)
  show "\<forall>t ops ids. live t r1 (Event_seen i) \<and> (\<forall>(t', oper) \<in> set ops. t' \<le> t) \<and> i \<in> set ids \<longrightarrow>
         is_duplicate t i (run_ops cfg ops r1) \<and>
         (\<exists>new_ids duplicate_ids r2.
            check_batch t ids (run_ops cfg ops r1) = (Inr (new_ids, duplicate_ids), r2) \<and>
            i \<in> set duplicate_ids \<and> i \<notin> set new_ids)"
  proof (intro allI impI)
    fix t :: int and ops :: "(int \<times> cache_op) list" and ids :: "uuid list"
    assume a: "live t r1 (Event_seen i) \<and> (\<forall>(t', oper) \<in> set ops. t' \<le> t) \<and> i \<in> set ids"
    then have "run_ops cfg ops r1 (Event_seen i) = r1 (Event_seen i)"
      by (intro run_ops_keeps_live) auto
    then have l: "live t (run_ops cfg ops r1) (Event_seen i)"
      using a live_cong by metis
    then show "is_duplicate t i (run_ops cfg ops r1) \<and>
         (\<exists>new_ids duplicate_ids r2.
            check_batch t ids (run_ops cfg ops r1) = (Inr (new_ids, duplicate_ids), r2) \<and>
            i \<in> set duplicate_ids \<and> i \<notin> set new_ids)"
      using a by (simp add: is_duplicate_live check_batch_eq)
  qed
next
  assume u: "\<forall>(t', oper) \<in> set ops0. \<not> marks i oper"
  then have "run_ops cfg ops0 Map.empty (Event_seen i) = None"
    using run_ops_unmarked [of ops0 i cfg Map.empty] by simp
  then have nl: "\<not> live t1 (run_ops cfg ops0 Map.empty) (Event_seen i)"
    by (rule live_None)
  then show "\<not> is_duplicate t1 i (run_ops cfg ops0 Map.empty)"
    by (simp add: is_duplicate_live)
  show "\<exists>new_ids duplicate_ids r2.
         check_batch t1 ids1 (run_ops cfg ops0 Map.empty) = (Inr (new_ids, duplicate_ids), r2) \<and>
         i \<notin> set duplicate_ids"
    using nl by (simp add: check_batch_eq)
qed

theorem check_batch_partitions_input_witness:
  "check_batch 10 [1, 2, 1, 3, 2] [Event_seen 2 \<mapsto> (1, Some 50)] =
     (Inr ([1, 1, 3], [2, 2]), [Event_seen 2 \<mapsto> (1, Some 50)])"
  using check_batch_partitions_input [of 10 "[1, 2, 1, 3, 2]" "[Event_seen 2 \<mapsto> (1, Some 50)]"]
  by (simp add: is_duplicate_live live_def)

theorem marked_id_is_duplicate_until_expiry_witness:
  "mark_batch_as_seen (redis_idempotency_ttl default_settings) 0 [1, 2] Map.empty =
     (Inr (), [Event_seen 1 \<mapsto> (1, Some 86400), Event_seen 2 \<mapsto> (1, Some 86400)]) \<and>
   2 \<in> set [1, 2 :: uuid] \<and>
   live 100 [Event_seen 1 \<mapsto> (1, Some 86400), Event_seen 2 \<mapsto> (1, Some 86400)] (Event_seen 2) \<and>
   is_duplicate 100 2
     (run_ops default_settings [(5, Check_batch [1, 7]), (6, Mark_as_seen 3), (7, Is_allowed ''10.0.0.1'')]
        [Event_seen 1 \<mapsto> (1, Some 86400), Event_seen 2 \<mapsto> (1, Some 86400)]) \<and>
   \<not> is_duplicate 100 9 (run_ops default_settings [(1, Mark_batch_as_seen [1, 2])] Map.empty)"
proof -
  let ?R = "[Event_seen (1 :: uuid) \<mapsto> (1 :: int, Some (86400 :: int)), Event_seen 2 \<mapsto> (1, Some 86400)]"
  let ?ops = "[(5 :: int, Check_batch [1, 7]), (6, Mark_as_seen 3), (7, Is_allowed ''10.0.0.1'')]"
  have m: "mark_batch_as_seen (redis_idempotency_ttl default_settings) 0 [1, 2] Map.empty = (Inr (), ?R)"
    by (simp add: default_settings_def mark_batch_as_seen_def pipeline_execute_def live_def)
  have l: "live 100 ?R (Event_seen 2)" by (simp add: live_def)
  have o: "\<forall>(t', oper) \<in> set ?ops. t' \<le> 100" by simp
  have u: "\<forall>(t', oper) \<in> set [(1 :: int, Mark_batch_as_seen [1, 2])]. \<not> marks 9 oper" by simp
  have i: "2 \<in> set [1, 2 :: uuid]" by simp
  note T = marked_id_is_duplicate_until_expiry
             [of default_settings 0 2 Map.empty True ?R "[1, 2]" "[(1, Mark_batch_as_seen [1, 2])]" 100 "[]"]
  from T m i have "\<forall>t ops ids. live t ?R (Event_seen 2) \<and> (\<forall>(t', oper) \<in> set ops. t' \<le> t) \<and> 2 \<in> set ids \<longrightarrow>
         is_duplicate t 2 (run_ops default_settings ops ?R)" by blast
  then have d: "is_duplicate 100 2 (run_ops default_settings ?ops ?R)"
    using l o by (metis list.set_intros(1))
  from marked_id_is_duplicate_until_expiry
         [of default_settings 0 9 Map.empty True ?R "[1, 2]" "[(1, Mark_batch_as_seen [1, 2])]" 100 "[]"] u
  have n: "\<not> is_duplicate 100 9 (run_ops default_settings [(1, Mark_batch_as_seen [1, 2])] Map.empty)"
    by blast
  show ?thesis using m i l d n by blast
qed

section \<open>Properties of the rate limiter\<close>


lemma is_allowed_eq:
  "is_allowed cfg now c r =
     (if \<not> rate_limit_enabled cfg then (Inr (True, rate_limit_requests cfg), r)
      else (Inr (counter now r c + 1 \<le> rate_limit_requests cfg,
                 max 0 (rate_limit_requests cfg - (counter now r c + 1))),
            if 0 < rate_limit_window cfg
            then r(Rate_limit c \<mapsto> (counter now r c + 1, Some (now + rate_limit_window cfg)))
            else r(Rate_limit c := None)))"
proof (cases "rate_limit_enabled cfg")
  case False
  then show ?thesis by (simp add: is_allowed_def)
next
  case True
  show ?thesis
  proof (cases "live now r (Rate_limit c)")
    case False
    then show ?thesis using True
      by (simp add: is_allowed_def pipeline_execute_def counter_def live_def)
  next
    case l: True
    then obtain v e where s: "r (Rate_limit c) = Some (v, e)"
      by (auto simp: live_def split: option.splits)
    have l': "live now (r(Rate_limit c \<mapsto> (v + 1, e))) (Rate_limit c)"
      using l s by (auto simp: live_def split: option.splits)
    show ?thesis using True l s l'
      by (simp add: is_allowed_def pipeline_execute_def counter_def)
  qed
qed

text \<open>
  Claim C6. With the enable flag set, one call of \<open>is_allowed\<close> adds one to the client's
  counter (a missing or expired counter counts from 0), sets the expiry of the counter to
  the time of the call plus the window, touches no other key, allows the call exactly
  when the new count is at most \<open>max_requests\<close>, and reports
  \<open>max(0, max_requests - count)\<close> as remaining; both commands are one transaction. (A
  window that is not positive makes \<open>EXPIRE\<close> delete the counter.) With the flag off the
  call is allowed, reports \<open>max_requests\<close> and leaves the store as it was.
\<close>

theorem is_allowed_counts_and_expires:
  "(rate_limit_enabled cfg \<longrightarrow>
      is_allowed cfg now c r =
        (Inr (counter now r c + 1 \<le> rate_limit_requests cfg,
              max 0 (rate_limit_requests cfg - (counter now r c + 1))),
         if 0 < rate_limit_window cfg
         then r(Rate_limit c \<mapsto> (counter now r c + 1, Some (now + rate_limit_window cfg)))
         else r(Rate_limit c := None))) \<and>
   (\<not> rate_limit_enabled cfg \<longrightarrow>
      is_allowed cfg now c r = (Inr (True, rate_limit_requests cfg), r))"
  by (simp add: is_allowed_eq)

theorem is_allowed_counts_and_expires_witness:
  "rate_limit_enabled default_settings \<and>
   is_allowed default_settings 7 ''10.0.0.1'' [Rate_limit ''10.0.0.1'' \<mapsto> (3, Some 50)] =
     (Inr (True, 996), [Rate_limit ''10.0.0.1'' \<mapsto> (4, Some 67)]) \<and>
   \<not> rate_limit_enabled (default_settings\<lparr>rate_limit_enabled := False\<rparr>) \<and>
   is_allowed (default_settings\<lparr>rate_limit_enabled := False\<rparr>) 7 ''10.0.0.1'' Map.empty =
     (Inr (True, 1000), Map.empty)"
  using is_allowed_counts_and_expires
          [of default_settings 7 "''10.0.0.1''" "[Rate_limit ''10.0.0.1'' \<mapsto> (3, Some 50)]"]
        is_allowed_counts_and_expires
          [of "default_settings\<lparr>rate_limit_enabled := False\<rparr>" 7 "''10.0.0.1''" Map.empty]
  by (simp add: default_settings_def counter_def live_def)

lemma check_rate_limit_eq:
  "rate_limit_enabled cfg \<Longrightarrow>
   check_rate_limit cfg now c r =
     (if counter now r c + 1 \<le> rate_limit_requests cfg
      then Passed (max 0 (rate_limit_requests cfg - (counter now r c + 1)))
      else Refused (max 0 (rate_limit_requests cfg - (counter now r c + 1)))
             (HTTPException 429 [(''X-RateLimit-Remaining'', ''0'')]),
      if 0 < rate_limit_window cfg
      then r(Rate_limit c \<mapsto> (counter now r c + 1, Some (now + rate_limit_window cfg)))
      else r(Rate_limit c := None))"
  by (simp add: check_rate_limit_def is_allowed_eq)

lemma serve_append:
  "serve cfg (calls @ [(c, t)]) r =
     serve cfg calls r @ [(c, fst (check_rate_limit cfg t c (after_calls cfg calls r)))]"
  by (induction calls arbitrary: r) (auto simp: split_beta)

lemma after_calls_append:
  "after_calls cfg (calls @ [(c, t)]) r = snd (check_rate_limit cfg t c (after_calls cfg calls r))"
  by (induction calls arbitrary: r) auto

lemma admitted_count_append:
  "admitted_count c (outs @ [(c', out)]) =
     admitted_count c outs + (if c' = c \<and> admitted out then 1 else 0)"
  by (simp add: admitted_count_def)

lemma calls_of_append:
  "calls_of c (calls @ [(c', t)]) = calls_of c calls + (if c' = c then 1 else 0)"
  by (simp add: calls_of_def)

lemma counter_nonneg: "counters_positive r \<Longrightarrow> 0 \<le> counter now r c"
  by (auto simp: counters_positive_def counter_def split: option.splits) force

lemma check_rate_limit_positive:
  "rate_limit_enabled cfg \<Longrightarrow> counters_positive r \<Longrightarrow>
     counters_positive (snd (check_rate_limit cfg now c r))"
  using counter_nonneg [of r now c]
  by (auto simp: check_rate_limit_eq counters_positive_def split: if_splits)

text \<open>What a run within one window leaves: the invariant of the induction.\<close>

lemma window_invariant:
  assumes en: "rate_limit_enabled cfg"
    and pos: "counters_positive r"
    and win: "\<forall>(c', t) \<in> set calls. c' = c \<longrightarrow> lo \<le> t \<and> t < lo + rate_limit_window cfg"
  shows "counters_positive (after_calls cfg calls r) \<and>
         admitted_count c (serve cfg calls r) \<le> calls_of c calls \<and>
         int (admitted_count c (serve cfg calls r)) \<le> max 0 (rate_limit_requests cfg) \<and>
         (0 < calls_of c calls \<longrightarrow>
            (\<exists>v e. after_calls cfg calls r (Rate_limit c) = Some (v, Some e) \<and>
                   int (calls_of c calls) \<le> v \<and> lo + rate_limit_window cfg \<le> e))"
  using win
proof (induction calls rule: rev_induct)
  case Nil
  then show ?case using pos by (simp add: admitted_count_def calls_of_def)
next
  case (snoc x calls)
  obtain c' t where x: "x = (c', t)" by (cases x)
  let ?r = "after_calls cfg calls r"
  let ?M = "rate_limit_requests cfg"
  let ?w = "rate_limit_window cfg"
  let ?a = "admitted_count c (serve cfg calls r)"
  let ?n = "calls_of c calls"
  from snoc.prems have win': "\<forall>(c', t) \<in> set calls. c' = c \<longrightarrow> lo \<le> t \<and> t < lo + ?w" by simp
  from snoc.IH [OF win'] have
    p: "counters_positive ?r" and an: "?a \<le> ?n" and aM: "int ?a \<le> max 0 ?M"
    and ent: "0 < ?n \<longrightarrow> (\<exists>v e. ?r (Rate_limit c) = Some (v, Some e) \<and> int ?n \<le> v \<and> lo + ?w \<le> e)"
    by auto
  have p': "counters_positive (after_calls cfg (calls @ [x]) r)"
    using x p en by (simp add: after_calls_append check_rate_limit_positive)
  show ?case
  proof (cases "c' = c")
    case False
    then have "after_calls cfg (calls @ [x]) r (Rate_limit c) = ?r (Rate_limit c)"
      using x en by (simp add: after_calls_append check_rate_limit_eq)
    then show ?thesis using False x p' an aM ent
      by (simp add: serve_append admitted_count_append calls_of_append)
  next
    case True
    from snoc.prems True x have t: "lo \<le> t" "t < lo + ?w" by auto
    then have w: "0 < ?w" by simp
    have cnt: "int ?n \<le> counter t ?r c"
    proof (cases "0 < ?n")
      case False
      then show ?thesis using counter_nonneg [OF p, of t c] by simp
    next
      case n: True
      with ent obtain v e where v: "?r (Rate_limit c) = Some (v, Some e)" "int ?n \<le> v" "lo + ?w \<le> e"
        by auto
      then have "live t ?r (Rate_limit c)" using t by (simp add: live_def)
      then show ?thesis using v by (simp add: counter_def)
    qed
    have st: "after_calls cfg (calls @ [x]) r (Rate_limit c) = Some (counter t ?r c + 1, Some (t + ?w))"
      using x True en w by (simp add: after_calls_append check_rate_limit_eq)
    have out: "admitted (fst (check_rate_limit cfg t c ?r)) = (counter t ?r c + 1 \<le> ?M)"
      using en by (simp add: check_rate_limit_eq)
    have a': "admitted_count c (serve cfg (calls @ [x]) r) = ?a + (if counter t ?r c + 1 \<le> ?M then 1 else 0)"
      using x True out by (simp add: serve_append admitted_count_append)
    have n': "calls_of c (calls @ [x]) = ?n + 1"
      using x True by (simp add: calls_of_append)
    have 1: "admitted_count c (serve cfg (calls @ [x]) r) \<le> calls_of c (calls @ [x])"
      using a' n' an by simp
    have 2: "int (admitted_count c (serve cfg (calls @ [x]) r)) \<le> max 0 ?M"
      using a' an aM cnt by (simp split: if_splits)
    have 3: "\<exists>v e. after_calls cfg (calls @ [x]) r (Rate_limit c) = Some (v, Some e) \<and>
                   int (calls_of c (calls @ [x])) \<le> v \<and> lo + ?w \<le> e"
      using st n' cnt t by simp
    show ?thesis using p' 1 2 3 by blast
  qed
qed


lemma apply_op_positive:
  assumes "counters_positive r"
  shows "counters_positive (apply_op cfg now oper r)"
proof (cases oper)
  case (Mark_as_seen j)
  then show ?thesis using assms by (auto simp: mark_as_seen_eq counters_positive_def)
next
  case (Mark_batch_as_seen ids)
  have "\<And>c. snd (run_cmds now (map (\<lambda>i. SET_NX_EX (Event_seen i) 1 (redis_idempotency_ttl cfg)) ids) r)
          (Rate_limit c) = r (Rate_limit c)"
    by (rule run_cmds_frame) auto
  then show ?thesis using assms Mark_batch_as_seen
    by (simp add: mark_batch_as_seen_eq counters_positive_def)
next
  case (Check_batch ids)
  then show ?thesis using assms by (simp add: check_batch_eq)
next
  case (Is_duplicate j)
  then show ?thesis using assms by simp
next
  case (Is_allowed c)
  then show ?thesis using assms counter_nonneg [OF assms, of now c]
    by (auto simp: is_allowed_eq counters_positive_def split: if_splits)
qed

lemma run_ops_positive:
  "counters_positive r \<Longrightarrow> counters_positive (run_ops cfg ops r)"
proof (induction ops arbitrary: r)
  case Nil
  then show ?case by simp
next
  case (Cons a ops)
  obtain t oper where "a = (t, oper)" by (cases a)
  then show ?case using Cons apply_op_positive by simp
qed

lemma empty_positive: "counters_positive Map.empty"
  by (simp add: counters_positive_def)

lemma late_call_refused:
  assumes en: "rate_limit_enabled cfg"
    and pos: "counters_positive r"
    and win: "\<forall>(c', t) \<in> set (earlier @ [(c, t)]). c' = c \<longrightarrow> lo \<le> t \<and> t < lo + rate_limit_window cfg"
    and many: "rate_limit_requests cfg \<le> int (calls_of c earlier)"
  shows "last (serve cfg (earlier @ [(c, t)]) r) =
           (c, Refused 0 (HTTPException 429 [(''X-RateLimit-Remaining'', ''0'')]))"
proof -
  let ?r = "after_calls cfg earlier r"
  let ?n = "calls_of c earlier"
  from win have win': "\<forall>(c', t) \<in> set earlier. c' = c \<longrightarrow> lo \<le> t \<and> t < lo + rate_limit_window cfg"
    and t: "lo \<le> t" "t < lo + rate_limit_window cfg" by auto
  from window_invariant [OF en pos win'] have
    p: "counters_positive ?r"
    and ent: "0 < ?n \<longrightarrow> (\<exists>v e. ?r (Rate_limit c) = Some (v, Some e) \<and> int ?n \<le> v \<and>
                 lo + rate_limit_window cfg \<le> e)"
    by auto
  have cnt: "int ?n \<le> counter t ?r c"
  proof (cases "0 < ?n")
    case False
    then show ?thesis using counter_nonneg [OF p, of t c] by simp
  next
    case True
    with ent obtain v e where v: "?r (Rate_limit c) = Some (v, Some e)" "int ?n \<le> v"
      "lo + rate_limit_window cfg \<le> e" by auto
    then have "live t ?r (Rate_limit c)" using t by (simp add: live_def)
    then show ?thesis using v by (simp add: counter_def)
  qed
  then have "\<not> counter t ?r c + 1 \<le> rate_limit_requests cfg" using many by simp
  then show ?thesis using en by (simp add: serve_append check_rate_limit_eq)
qed

text \<open>
  Claim C7. With rate limiting enabled, after any earlier calls on the cache, take a run
  of requests in which those of client \<open>c\<close> all arrive within one window
  \<open>[lo, lo + window)\<close>: at most \<open>max_requests\<close> of them are admitted; and a request of
  \<open>c\<close> that follows at least \<open>max_requests\<close> others of \<open>c\<close> in that window (the call
  number \<open>max_requests + 1\<close>) is refused with status 429, the header
  \<open>X-RateLimit-Remaining: 0\<close> and 0 remaining.
\<close>

theorem admitted_per_window_bounded:
  "rate_limit_enabled cfg \<and>
   (\<forall>(c', t) \<in> set calls. c' = c \<longrightarrow> lo \<le> t \<and> t < lo + rate_limit_window cfg) \<longrightarrow>
     int (admitted_count c (serve cfg calls (run_ops cfg history Map.empty)))
       \<le> max 0 (rate_limit_requests cfg) \<and>
     (\<forall>earlier t. calls = earlier @ [(c, t)] \<and>
                  rate_limit_requests cfg \<le> int (calls_of c earlier) \<longrightarrow>
        last (serve cfg calls (run_ops cfg history Map.empty)) =
          (c, Refused 0 (HTTPException 429 [(''X-RateLimit-Remaining'', ''0'')])))"
proof (intro impI)
  assume h: "rate_limit_enabled cfg \<and>
   (\<forall>(c', t) \<in> set calls. c' = c \<longrightarrow> lo \<le> t \<and> t < lo + rate_limit_window cfg)"
  let ?r = "run_ops cfg history Map.empty"
  have pos: "counters_positive ?r" using empty_positive by (rule run_ops_positive)
  from h have en: "rate_limit_enabled cfg"
    and win: "\<forall>(c', t) \<in> set calls. c' = c \<longrightarrow> lo \<le> t \<and> t < lo + rate_limit_window cfg"
    by auto
  have b: "int (admitted_count c (serve cfg calls ?r)) \<le> max 0 (rate_limit_requests cfg)"
    using window_invariant [OF en pos win] by simp
  have l: "\<forall>earlier t. calls = earlier @ [(c, t)] \<and>
                  rate_limit_requests cfg \<le> int (calls_of c earlier) \<longrightarrow>
        last (serve cfg calls ?r) =
          (c, Refused 0 (HTTPException 429 [(''X-RateLimit-Remaining'', ''0'')]))"
  proof (intro allI impI)
    fix earlier :: "(string \<times> int) list" and t :: int
    assume a: "calls = earlier @ [(c, t)] \<and> rate_limit_requests cfg \<le> int (calls_of c earlier)"
    then have w: "\<forall>(c', t') \<in> set (earlier @ [(c, t)]). c' = c \<longrightarrow>
                    lo \<le> t' \<and> t' < lo + rate_limit_window cfg"
      using win by simp
    from a have m: "rate_limit_requests cfg \<le> int (calls_of c earlier)" by simp
    show "last (serve cfg calls ?r) =
          (c, Refused 0 (HTTPException 429 [(''X-RateLimit-Remaining'', ''0'')]))"
      using late_call_refused [OF en pos w m] a by simp
  qed
  show "int (admitted_count c (serve cfg calls ?r)) \<le> max 0 (rate_limit_requests cfg) \<and>
     (\<forall>earlier t. calls = earlier @ [(c, t)] \<and>
                  rate_limit_requests cfg \<le> int (calls_of c earlier) \<longrightarrow>
        last (serve cfg calls ?r) =
          (c, Refused 0 (HTTPException 429 [(''X-RateLimit-Remaining'', ''0'')])))"
    using b l by blast
qed

theorem admitted_per_window_bounded_witness:
  "rate_limit_enabled (default_settings\<lparr>rate_limit_requests := 2\<rparr>) \<and>
   int (admitted_count ''a''
          (serve (default_settings\<lparr>rate_limit_requests := 2\<rparr>)
             [(''a'', 0), (''b'', 1), (''a'', 2), (''a'', 59)] Map.empty)) \<le> 2 \<and>
   calls_of ''a'' [(''a'', 0), (''b'', 1), (''a'', 2 :: int)] = 2 \<and>
   last (serve (default_settings\<lparr>rate_limit_requests := 2\<rparr>)
           [(''a'', 0), (''b'', 1), (''a'', 2), (''a'', 59)] Map.empty) =
     (''a'', Refused 0 (HTTPException 429 [(''X-RateLimit-Remaining'', ''0'')]))"
proof -
  let ?cfg = "default_settings\<lparr>rate_limit_requests := 2\<rparr>"
  let ?calls = "[(''a'', 0 :: int), (''b'', 1), (''a'', 2), (''a'', 59)]"
  have en: "rate_limit_enabled ?cfg" by (simp add: default_settings_def)
  have win: "\<forall>(c', t) \<in> set ?calls. c' = ''a'' \<longrightarrow> 0 \<le> t \<and> t < 0 + rate_limit_window ?cfg"
    by (simp add: default_settings_def)
  have n: "calls_of ''a'' [(''a'', 0), (''b'', 1), (''a'', 2 :: int)] = 2"
    by (simp add: calls_of_def)
  have sp: "?calls = [(''a'', 0), (''b'', 1), (''a'', 2)] @ [(''a'', 59)]" by simp
  have m: "rate_limit_requests ?cfg \<le> int (calls_of ''a'' [(''a'', 0), (''b'', 1), (''a'', 2 :: int)])"
    using n by (simp add: default_settings_def)
  note T = admitted_per_window_bounded [of ?cfg ?calls "''a''" 0 "[]"]
  from T en win have
    b: "int (admitted_count ''a'' (serve ?cfg ?calls (run_ops ?cfg [] Map.empty)))
          \<le> max 0 (rate_limit_requests ?cfg)"
    and l: "\<forall>earlier t. ?calls = earlier @ [(''a'', t)] \<and>
                  rate_limit_requests ?cfg \<le> int (calls_of ''a'' earlier) \<longrightarrow>
        last (serve ?cfg ?calls (run_ops ?cfg [] Map.empty)) =
          (''a'', Refused 0 (HTTPException 429 [(''X-RateLimit-Remaining'', ''0'')]))"
    by blast+
  from l sp m have l': "last (serve ?cfg ?calls (run_ops ?cfg [] Map.empty)) =
          (''a'', Refused 0 (HTTPException 429 [(''X-RateLimit-Remaining'', ''0'')]))"
    by blast
  have b': "int (admitted_count ''a'' (serve ?cfg ?calls Map.empty)) \<le> 2"
    using b by (simp add: default_settings_def)
  show ?thesis using en b' n l' by simp
qed

section \<open>Properties of the ingest handler\<close>

lemma publish_batch_ok:
  "\<forall>e \<in> set es. \<not> publish_raises en e \<Longrightarrow>
     publish_batch en es q = (Inr (), q @ map (\<lambda>e. \<lparr>data = Json_event e, delivered = 0\<rparr>) es)"
  by (induction es arbitrary: q) (auto simp: publish_event_def)

lemma publish_batch_Inr:
  "publish_batch en es q = (Inr u, q') \<Longrightarrow>
     q' = q @ map (\<lambda>e. \<lparr>data = Json_event e, delivered = 0\<rparr>) es"
proof (induction es arbitrary: q)
  case Nil
  then show ?case by simp
next
  case (Cons e es)
  then have nr: "\<not> publish_raises en e"
    by (auto simp: publish_event_def split: if_splits)
  with Cons.prems have "publish_batch en es (q @ [\<lparr>data = Json_event e, delivered = 0\<rparr>]) = (Inr u, q')"
    by (simp add: publish_event_def)
  from Cons.IH [OF this] show ?case by simp
qed

lemma new_events_filter:
  "filter (\<lambda>e. event_id e \<in> set (filter (\<lambda>i. \<not> P i) (map event_id batch))) batch
     = filter (\<lambda>e. \<not> P (event_id e)) batch"
  by (rule filter_cong) auto

lemma length_filter_map_id:
  "length (filter Q (map f xs)) = length (filter (\<lambda>x. Q (f x)) xs)"
  by (induction xs) auto

lemma ingest_events_all_duplicates:
  assumes "\<forall>e \<in> set batch. live now (redis w) (Event_seen (event_id e))"
  shows "\<exists>w'. ingest_events en cfg now batch w =
           (Inr \<lparr>accepted = 0, duplicates = length batch, failed = 0,
                 message = All_events_were_duplicates\<rparr>, w') \<and>
           redis w' = redis w \<and> nats w' = nats w \<and> db w' = db w"
proof -
  let ?P = "\<lambda>i. live now (redis w) (Event_seen i)"
  have n: "filter (\<lambda>e. \<not> ?P (event_id e)) batch = []" using assms by (simp add: filter_empty_conv)
  have d: "length (filter ?P (map event_id batch)) = length batch"
    using assms by simp
  show ?thesis
    apply (simp only: ingest_events_def check_batch_eq Let_def prod.case sum.case new_events_filter n d)
    apply simp
    done
qed

lemma ingest_events_Inr:
  assumes "ingest_events en cfg now batch w = (Inr resp, w')"
  shows "accepted resp = length (filter (\<lambda>i. \<not> live now (redis w) (Event_seen i)) (map event_id batch)) \<and>
         duplicates resp = length (filter (\<lambda>i. live now (redis w) (Event_seen i)) (map event_id batch)) \<and>
         failed resp = 0 \<and> db w' = db w \<and>
         (filter (\<lambda>i. \<not> live now (redis w) (Event_seen i)) (map event_id batch) = [] \<longrightarrow>
            redis w' = redis w \<and> nats w' = nats w) \<and>
         (filter (\<lambda>i. \<not> live now (redis w) (Event_seen i)) (map event_id batch) \<noteq> [] \<longrightarrow>
            0 < redis_idempotency_ttl cfg \<and>
            redis w' = snd (run_cmds now
                        (map (\<lambda>i. SET_NX_EX (Event_seen i) 1 (redis_idempotency_ttl cfg))
                           (filter (\<lambda>i. \<not> live now (redis w) (Event_seen i)) (map event_id batch)))
                        (redis w)) \<and>
            nats w' = nats w @ map (\<lambda>e. \<lparr>data = Json_event e, delivered = 0\<rparr>)
                        (filter (\<lambda>e. \<not> live now (redis w) (Event_seen (event_id e))) batch))"
proof -
  let ?P = "\<lambda>i. live now (redis w) (Event_seen i)"
  let ?news = "filter (\<lambda>e. \<not> ?P (event_id e)) batch"
  let ?new_ids = "filter (\<lambda>i. \<not> ?P i) (map event_id batch)"
  let ?dup_ids = "filter ?P (map event_id batch)"
  have len: "length ?new_ids = length ?news" by (simp add: comp_def)
  have emp: "(?new_ids = []) = (?news = [])"
    using len by (metis length_0_conv)
  note a = assms [simplified ingest_events_def check_batch_eq Let_def prod.case sum.case new_events_filter]
  show ?thesis
  proof (cases "?news = []")
    case True
    with a have "resp = \<lparr>accepted = 0, duplicates = length ?dup_ids, failed = 0,
                        message = All_events_were_duplicates\<rparr>"
      and "redis w' = redis w" and "nats w' = nats w" and "db w' = db w"
      by auto
    then show ?thesis using True emp len by simp
  next
    case False
    then have ne: "?new_ids \<noteq> []" using emp by simp
    from a False ne have pos: "0 < redis_idempotency_ttl cfg"
      by (auto simp: mark_batch_as_seen_eq ingestion_error_def split: if_splits)
    let ?r2 = "snd (run_cmds now (map (\<lambda>i. SET_NX_EX (Event_seen i) 1 (redis_idempotency_ttl cfg)) ?new_ids) (redis w))"
    obtain x q where pb: "publish_batch en ?news (nats w) = (x, q)" by (cases "publish_batch en ?news (nats w)")
    from a False pos pb obtain u where x: "x = Inr u"
      by (cases x) (auto simp: mark_batch_as_seen_eq ingestion_error_def)
    from publish_batch_Inr pb x have q: "q = nats w @ map (\<lambda>e. \<lparr>data = Json_event e, delivered = 0\<rparr>) ?news"
      by blast
    from a False pos pb x have "resp = \<lparr>accepted = length ?news, duplicates = length ?dup_ids, failed = 0,
                        message = Accepted_events_for_processing (length ?news)\<rparr>"
      and "redis w' = ?r2" and "nats w' = q" and "db w' = db w"
      by (auto simp: mark_batch_as_seen_eq)
    then show ?thesis using ne pos q len by simp
  qed
qed

lemma ingest_events_succeeds:
  assumes "0 < redis_idempotency_ttl cfg" "\<forall>e \<in> set batch. \<not> publish_raises en e"
  shows "\<exists>resp w'. ingest_events en cfg now batch w = (Inr resp, w')"
proof -
  let ?P = "\<lambda>i. live now (redis w) (Event_seen i)"
  let ?news = "filter (\<lambda>e. \<not> ?P (event_id e)) batch"
  have "\<forall>e \<in> set ?news. \<not> publish_raises en e" using assms(2) by simp
  from publish_batch_ok [OF this] have pb: "publish_batch en ?news (nats w) =
      (Inr (), nats w @ map (\<lambda>e. \<lparr>data = Json_event e, delivered = 0\<rparr>) ?news)" .
  show ?thesis
    apply (simp only: ingest_events_def check_batch_eq Let_def prod.case sum.case new_events_filter)
    using assms(1) pb apply (simp add: mark_batch_as_seen_eq)
    done
qed

text \<open>
  Claim C2. Whenever \<open>ingest_events\<close> answers a batch with a response (status 202), the
  response counts the two lists \<open>check_batch\<close> returns for the batch's identifiers:
  \<open>accepted\<close> is the number of new identifiers, \<open>duplicates\<close> the number of duplicate
  ones, \<open>failed\<close> is 0, and the three add up to the size of the batch; when there is no
  new identifier, \<open>accepted\<close> is 0 and neither the cache nor the stream has changed. A
  response is what the handler returns when the idempotency TTL is positive and the
  broker refuses no publish.
\<close>

theorem ingest_events_counts:
  "(\<forall>resp w'. ingest_events en cfg now batch w = (Inr resp, w') \<longrightarrow>
      (\<exists>new_ids duplicate_ids.
         check_batch now (map event_id batch) (redis w) = (Inr (new_ids, duplicate_ids), redis w) \<and>
         accepted resp = length new_ids \<and>
         duplicates resp = length duplicate_ids \<and>
         failed resp = 0 \<and>
         length batch = accepted resp + duplicates resp + failed resp \<and>
         (new_ids = [] \<longrightarrow> accepted resp = 0 \<and> redis w' = redis w \<and> nats w' = nats w))) \<and>
   (0 < redis_idempotency_ttl cfg \<and> (\<forall>e \<in> set batch. \<not> publish_raises en e) \<longrightarrow>
      (\<exists>resp w'. ingest_events en cfg now batch w = (Inr resp, w')))"
proof (intro conjI allI impI)
  fix resp w'
  assume a: "ingest_events en cfg now batch w = (Inr resp, w')"
  let ?P = "\<lambda>i. live now (redis w) (Event_seen i)"
  let ?new_ids = "filter (\<lambda>i. \<not> ?P i) (map event_id batch)"
  let ?dup_ids = "filter ?P (map event_id batch)"
  have sum: "length ?new_ids + length ?dup_ids = length batch"
    using sum_length_filter_compl [of ?P "map event_id batch"] by simp
  from ingest_events_Inr [OF a] have
    r: "accepted resp = length ?new_ids" "duplicates resp = length ?dup_ids" "failed resp = 0"
       "?new_ids = [] \<longrightarrow> redis w' = redis w \<and> nats w' = nats w"
    by blast+
  have "check_batch now (map event_id batch) (redis w) = (Inr (?new_ids, ?dup_ids), redis w) \<and>
         accepted resp = length ?new_ids \<and>
         duplicates resp = length ?dup_ids \<and>
         failed resp = 0 \<and>
         length batch = accepted resp + duplicates resp + failed resp \<and>
         (?new_ids = [] \<longrightarrow> accepted resp = 0 \<and> redis w' = redis w \<and> nats w' = nats w)"
    using r sum by (simp add: check_batch_eq del: filter_map length_filter_map)
  then show "\<exists>new_ids duplicate_ids.
         check_batch now (map event_id batch) (redis w) = (Inr (new_ids, duplicate_ids), redis w) \<and>
         accepted resp = length new_ids \<and>
         duplicates resp = length duplicate_ids \<and>
         failed resp = 0 \<and>
         length batch = accepted resp + duplicates resp + failed resp \<and>
         (new_ids = [] \<longrightarrow> accepted resp = 0 \<and> redis w' = redis w \<and> nats w' = nats w)"
    by blast
next
  assume "0 < redis_idempotency_ttl cfg \<and> (\<forall>e \<in> set batch. \<not> publish_raises en e)"
  then show "\<exists>resp w'. ingest_events en cfg now batch w = (Inr resp, w')"
    using ingest_events_succeeds by blast
qed

theorem ingest_events_counts_witness:
  "\<exists>resp w'.
     ingest_events reliable default_settings 0
       [sample_event 1 ''user_1'' ''page_view'' 100, sample_event 2 ''user_2'' ''purchase'' 100,
        sample_event 1 ''user_1'' ''click'' 100]
       (empty_world\<lparr>redis := [Event_seen 2 \<mapsto> (1, Some 500)]\<rparr>) = (Inr resp, w') \<and>
     accepted resp = 2 \<and> duplicates resp = 1 \<and> failed resp = 0"
proof -
  let ?batch = "[sample_event 1 ''user_1'' ''page_view'' 100, sample_event 2 ''user_2'' ''purchase'' 100,
        sample_event 1 ''user_1'' ''click'' 100]"
  let ?w = "empty_world\<lparr>redis := [Event_seen 2 \<mapsto> (1, Some 500)]\<rparr>"
  note T = ingest_events_counts [of reliable default_settings 0 ?batch ?w]
  have h: "0 < redis_idempotency_ttl default_settings \<and> (\<forall>e \<in> set ?batch. \<not> publish_raises reliable e)"
    by (simp add: default_settings_def reliable_def)
  with T obtain resp w' where
    r: "ingest_events reliable default_settings 0 ?batch ?w = (Inr resp, w')" by blast
  with T obtain new_ids duplicate_ids where
    c: "check_batch 0 (map event_id ?batch) (redis ?w) = (Inr (new_ids, duplicate_ids), redis ?w)"
    and a: "accepted resp = length new_ids" "duplicates resp = length duplicate_ids" "failed resp = 0"
    by blast
  have "check_batch 0 (map event_id ?batch) (redis ?w) = (Inr ([1, 1], [2]), redis ?w)"
    by (simp add: check_batch_eq sample_event_def live_def)
  with c have "new_ids = [1, 1]" "duplicate_ids = [2]" by simp_all
  with a r show ?thesis by simp
qed

section \<open>Properties of the store writer\<close>

lemma execute_insert_rowcount:
  "\<not> dr e \<Longrightarrow>
     \<exists>n s'. execute_insert dr e s = Inr (n, s') \<and>
            (n = 1) = (event_id e \<notin> event_id ` set (working s)) \<and>
            (n = 0) = (event_id e \<in> event_id ` set (working s))"
  by (simp add: execute_insert_def)

lemma card_fresh:
  assumes "x \<notin> W" "finite A"
  shows "card (insert x A - W) = Suc (card (A - insert x W))"
proof -
  have "insert x A - W = insert x (A - insert x W)" using assms(1) by auto
  moreover have "x \<notin> A - insert x W" by simp
  moreover have "finite (A - insert x W)" using assms(2) by simp
  ultimately show ?thesis by simp
qed

lemma insert_loop_ok:
  assumes "\<forall>e \<in> set es. \<not> dr e"
  shows "\<exists>fresh.
           insert_loop dr es i d s =
             (Inr (i + length fresh, d + (length es - length fresh)),
              s\<lparr>working := working s @ fresh\<rparr>) \<and>
           length fresh \<le> length es \<and>
           length fresh = card (event_id ` set es - event_id ` set (working s)) \<and>
           event_id ` set fresh = event_id ` set es - event_id ` set (working s) \<and>
           distinct (map event_id fresh)"
  using assms
proof (induction es arbitrary: i d s)
  case Nil
  show ?case by (intro exI [of _ "[]"]) simp
next
  case (Cons e es)
  then have ok: "\<forall>e \<in> set es. \<not> dr e" and nr: "\<not> dr e" by auto
  let ?W = "event_id ` set (working s)"
  show ?case
  proof (cases "event_id e \<in> ?W")
    case True
    from Cons.IH [OF ok, of i "d + 1" s] obtain fresh where
      f: "insert_loop dr es i (d + 1) s =
             (Inr (i + length fresh, d + 1 + (length es - length fresh)),
              s\<lparr>working := working s @ fresh\<rparr>)"
         "length fresh \<le> length es"
         "length fresh = card (event_id ` set es - ?W)"
         "event_id ` set fresh = event_id ` set es - ?W"
         "distinct (map event_id fresh)" by blast
    have s1: "insert_loop dr (e # es) i d s = insert_loop dr es i (d + 1) s"
      using True nr by (simp add: execute_insert_def)
    have s2: "insert (event_id e) (event_id ` set es) - ?W = event_id ` set es - ?W"
      using True by auto
    have s3: "d + 1 + (length es - length fresh) = d + (length (e # es) - length fresh)"
      using f(2) by simp
    show ?thesis
      apply (intro exI [of _ fresh])
      using f s1 s2 s3 by simp
  next
    case False
    let ?s = "s\<lparr>working := working s @ [e]\<rparr>"
    from Cons.IH [OF ok, of "i + 1" d ?s] obtain fresh where
      f: "insert_loop dr es (i + 1) d ?s =
             (Inr (i + 1 + length fresh, d + (length es - length fresh)),
              ?s\<lparr>working := working ?s @ fresh\<rparr>)"
         "length fresh \<le> length es"
         "length fresh = card (event_id ` set es - event_id ` set (working ?s))"
         "event_id ` set fresh = event_id ` set es - event_id ` set (working ?s)"
         "distinct (map event_id fresh)" by blast
    have W': "event_id ` set (working ?s) = insert (event_id e) ?W" by simp
    have s1: "insert_loop dr (e # es) i d s = insert_loop dr es (i + 1) d ?s"
      using False nr by (simp add: execute_insert_def)
    have c: "card (insert (event_id e) (event_id ` set es) - ?W)
               = Suc (card (event_id ` set es - insert (event_id e) ?W))"
      using False by (intro card_fresh) simp_all
    have nf: "event_id e \<notin> event_id ` set fresh" using f(4) W' by simp
    have ids: "event_id ` set (e # fresh) = event_id ` set (e # es) - ?W"
      using f(4) W' False by auto
    show ?thesis
      apply (intro exI [of _ "e # fresh"])
      using f(1,2,3,5) s1 c nf ids W' by simp
  qed
qed

lemma insert_loop_fail:
  assumes "\<exists>e \<in> set es. dr e"
  shows "\<exists>s'. insert_loop dr es i d s = (Inl DriverError, s') \<and> committed s' = committed s"
  using assms
proof (induction es arbitrary: i d s)
  case Nil
  then show ?case by simp
next
  case (Cons e es)
  show ?case
  proof (cases "dr e")
    case True
    then show ?thesis by (simp add: execute_insert_def)
  next
    case False
    then have r: "\<exists>e \<in> set es. dr e" using Cons.prems by simp
    show ?thesis
    proof (cases "event_id e \<in> event_id ` set (working s)")
      case True
      then have "insert_loop dr (e # es) i d s = insert_loop dr es i (d + 1) s"
        using False by (simp add: execute_insert_def)
      then show ?thesis using Cons.IH [OF r, of i "d + 1" s] by simp
    next
      case n: False
      let ?s = "s\<lparr>working := working s @ [e]\<rparr>"
      have "insert_loop dr (e # es) i d s = insert_loop dr es (i + 1) d ?s"
        using False n by (simp add: execute_insert_def)
      then show ?thesis using Cons.IH [OF r, of "i + 1" d ?s] by simp
    qed
  qed
qed

lemma insert_events_session_ok:
  assumes "\<forall>e \<in> set events. \<not> dr e"
  shows "\<exists>fresh.
           get_session (insert_events dr events) tbl =
             (Inr (length fresh, length events - length fresh), tbl @ fresh) \<and>
           length fresh \<le> length events \<and>
           length fresh = card (event_id ` set events - event_id ` set tbl) \<and>
           event_id ` set fresh = event_id ` set events - event_id ` set tbl \<and>
           distinct (map event_id fresh)"
proof -
  from insert_loop_ok [OF assms, of 0 0 "begin_session tbl"] obtain fresh where
    f: "insert_loop dr events 0 0 (begin_session tbl) =
             (Inr (0 + length fresh, 0 + (length events - length fresh)),
              (begin_session tbl)\<lparr>working := working (begin_session tbl) @ fresh\<rparr>)"
       "length fresh \<le> length events"
       "length fresh = card (event_id ` set events - event_id ` set (working (begin_session tbl)))"
       "event_id ` set fresh = event_id ` set events - event_id ` set (working (begin_session tbl))"
       "distinct (map event_id fresh)" by blast
  have "get_session (insert_events dr events) tbl =
             (Inr (length fresh, length events - length fresh), tbl @ fresh)"
    using f(1) by (simp add: get_session_def insert_events_def begin_session_def commit_def)
  then show ?thesis using f(2-5) by (intro exI [of _ fresh]) (simp add: begin_session_def)
qed

lemma insert_events_session_fail:
  assumes "\<exists>e \<in> set events. dr e"
  shows "get_session (insert_events dr events) tbl = (Inl DriverError, tbl)"
proof -
  from insert_loop_fail [OF assms, of 0 0 "begin_session tbl"] obtain s' where
    "insert_loop dr events 0 0 (begin_session tbl) = (Inl DriverError, s')"
    "committed s' = committed (begin_session tbl)" by blast
  then show ?thesis
    by (simp add: get_session_def insert_events_def begin_session_def rollback_def)
qed

text \<open>
  Claim C4. One \<open>INSERT ... ON CONFLICT DO NOTHING\<close> has row count 1 exactly when the
  event's identifier is not in the table as the transaction sees it, and 0 when it is.
  When the driver raises for none of the events, \<open>insert_events\<close> in a session returns
  \<open>(inserted, duplicates)\<close> and commits once at the end: the table is the old one followed
  by the inserted rows, \<open>inserted\<close> is the number of distinct identifiers of the call
  that were not in the table, the rest of the events are the duplicates, every
  identifier of the call is in the table afterwards, and unique identifiers stay unique.
  When the driver raises for some event, the exception reaches the caller and the table is
  the one before the call.
\<close>

theorem insert_events_counts_and_rolls_back:
  "(\<not> dr e \<longrightarrow>
      (\<exists>rowcount s'. execute_insert dr e s = Inr (rowcount, s') \<and>
         (rowcount = 1) = (event_id e \<notin> event_id ` set (working s)) \<and>
         (rowcount = 0) = (event_id e \<in> event_id ` set (working s)))) \<and>
   ((\<forall>e \<in> set events. \<not> dr e) \<longrightarrow>
      (\<exists>inserted duplicates fresh.
         get_session (insert_events dr events) tbl = (Inr (inserted, duplicates), tbl @ fresh) \<and>
         inserted = length fresh \<and>
         inserted = card (event_id ` set events - event_id ` set tbl) \<and>
         inserted + duplicates = length events \<and>
         event_id ` set (tbl @ fresh) = event_id ` set tbl \<union> event_id ` set events \<and>
         (distinct (map event_id tbl) \<longrightarrow> distinct (map event_id (tbl @ fresh))))) \<and>
   ((\<exists>e \<in> set events. dr e) \<longrightarrow>
      get_session (insert_events dr events) tbl = (Inl DriverError, tbl))"
proof (intro conjI impI)
  assume "\<not> dr e"
  then show "\<exists>rowcount s'. execute_insert dr e s = Inr (rowcount, s') \<and>
         (rowcount = 1) = (event_id e \<notin> event_id ` set (working s)) \<and>
         (rowcount = 0) = (event_id e \<in> event_id ` set (working s))"
    by (rule execute_insert_rowcount)
next
  assume "\<forall>e \<in> set events. \<not> dr e"
  from insert_events_session_ok [OF this, of tbl] obtain fresh where
    f: "get_session (insert_events dr events) tbl =
             (Inr (length fresh, length events - length fresh), tbl @ fresh)"
       "length fresh \<le> length events"
       "length fresh = card (event_id ` set events - event_id ` set tbl)"
       "event_id ` set fresh = event_id ` set events - event_id ` set tbl"
       "distinct (map event_id fresh)" by blast
  have u: "event_id ` set (tbl @ fresh) = event_id ` set tbl \<union> event_id ` set events"
    using f(4) by auto
  have dd: "distinct (map event_id tbl) \<longrightarrow> distinct (map event_id (tbl @ fresh))"
    using f(4,5) by auto
  have "get_session (insert_events dr events) tbl =
          (Inr (length fresh, length events - length fresh), tbl @ fresh) \<and>
         length fresh = length fresh \<and>
         length fresh = card (event_id ` set events - event_id ` set tbl) \<and>
         length fresh + (length events - length fresh) = length events \<and>
         event_id ` set (tbl @ fresh) = event_id ` set tbl \<union> event_id ` set events \<and>
         (distinct (map event_id tbl) \<longrightarrow> distinct (map event_id (tbl @ fresh)))"
    using f(1,2,3) u dd by simp
  then show "\<exists>inserted duplicates fresh.
         get_session (insert_events dr events) tbl = (Inr (inserted, duplicates), tbl @ fresh) \<and>
         inserted = length fresh \<and>
         inserted = card (event_id ` set events - event_id ` set tbl) \<and>
         inserted + duplicates = length events \<and>
         event_id ` set (tbl @ fresh) = event_id ` set tbl \<union> event_id ` set events \<and>
         (distinct (map event_id tbl) \<longrightarrow> distinct (map event_id (tbl @ fresh)))"
    by blast
next
  assume "\<exists>e \<in> set events. dr e"
  then show "get_session (insert_events dr events) tbl = (Inl DriverError, tbl)"
    by (rule insert_events_session_fail)
qed

theorem insert_events_counts_and_rolls_back_witness:
  "get_session
     (insert_events (\<lambda>e. False)
        [sample_event 2 ''u2'' ''click'' 5, sample_event 1 ''u1'' ''click'' 6,
         sample_event 2 ''u2'' ''click'' 5, sample_event 3 ''u3'' ''view'' 7])
     [sample_event 1 ''u1'' ''click'' 6] =
     (Inr (2, 2),
      [sample_event 1 ''u1'' ''click'' 6, sample_event 2 ''u2'' ''click'' 5,
       sample_event 3 ''u3'' ''view'' 7]) \<and>
   get_session
     (insert_events (\<lambda>e. event_id e = 3)
        [sample_event 2 ''u2'' ''click'' 5, sample_event 1 ''u1'' ''click'' 6,
         sample_event 2 ''u2'' ''click'' 5, sample_event 3 ''u3'' ''view'' 7])
     [sample_event 1 ''u1'' ''click'' 6] =
     (Inl DriverError, [sample_event 1 ''u1'' ''click'' 6])"
proof -
  let ?events = "[sample_event 2 ''u2'' ''click'' 5, sample_event 1 ''u1'' ''click'' 6,
         sample_event 2 ''u2'' ''click'' 5, sample_event 3 ''u3'' ''view'' 7]"
  let ?tbl = "[sample_event 1 ''u1'' ''click'' 6]"
  let ?e = "sample_event 1 ''u1'' ''click'' 6"
  have none: "\<forall>e \<in> set ?events. \<not> (\<lambda>e. False) e" by simp
  note T1 = insert_events_counts_and_rolls_back
              [of "\<lambda>e. False" ?e "begin_session ?tbl" ?events ?tbl,
               THEN conjunct2, THEN conjunct1, THEN mp, OF none]
  then obtain inserted dups fresh where
    a: "get_session (insert_events (\<lambda>e. False) ?events) ?tbl = (Inr (inserted, dups), ?tbl @ fresh)"
    and n: "inserted + dups = length ?events"
    by (elim exE conjE)
  have b: "get_session (insert_events (\<lambda>e. False) ?events) ?tbl =
     (Inr (2, 2),
      [sample_event 1 ''u1'' ''click'' 6, sample_event 2 ''u2'' ''click'' 5,
       sample_event 3 ''u3'' ''view'' 7])"
    by (simp add: get_session_def insert_events_def begin_session_def commit_def
          execute_insert_def sample_event_def)
  have some: "\<exists>e \<in> set ?events. (\<lambda>e. event_id e = 3) e" by (simp add: sample_event_def)
  note c = insert_events_counts_and_rolls_back
              [of "\<lambda>e. event_id e = 3" ?e "begin_session ?tbl" ?events ?tbl,
               THEN conjunct2, THEN conjunct2, THEN mp, OF some]
  show ?thesis using b c by (rule conjI)
qed

section \<open>Properties of the worker\<close>

lemma process_event_frame:
  "redis (snd (process_event en msg w)) = redis w \<and> nats (snd (process_event en msg w)) = nats w"
proof (cases "data msg")
  case (Json_event e)
  obtain x db' where g: "get_session (insert_events (driver_raises en) [e]) (db w) = (x, db')"
    by (cases "get_session (insert_events (driver_raises en) [e]) (db w)")
  show ?thesis
  proof (cases x)
    case (Inl a)
    then show ?thesis using Json_event g by (cases a) (simp_all add: process_event_def)
  next
    case (Inr b)
    then show ?thesis using Json_event g by (cases b) (simp add: process_event_def)
  qed
qed (simp_all add: process_event_def)

lemma process_event_cong:
  assumes "db w = db w'"
  shows "fst (process_event en msg w) = fst (process_event en msg w') \<and>
         db (snd (process_event en msg w)) = db (snd (process_event en msg w'))"
proof (cases "data msg")
  case (Json_event e)
  obtain x db' where g: "get_session (insert_events (driver_raises en) [e]) (db w) = (x, db')"
    by (cases "get_session (insert_events (driver_raises en) [e]) (db w)")
  then have g': "get_session (insert_events (driver_raises en) [e]) (db w') = (x, db')"
    using assms by simp
  show ?thesis
  proof (cases x)
    case (Inl a)
    then show ?thesis using Json_event g g' by (cases a) (simp_all add: process_event_def)
  next
    case (Inr b)
    then show ?thesis using Json_event g g' by (cases b) (simp add: process_event_def)
  qed
qed (simp_all add: process_event_def assms)

lemma worker_step_redis: "redis (worker_step en w) = redis w"
proof (cases "nats w")
  case Nil
  then show ?thesis by (simp add: worker_step_def)
next
  case (Cons msg rest)
  obtain a w' where p: "process_event en msg w = (a, w')" by (cases "process_event en msg w")
  then have "redis w' = redis w" using process_event_frame [of en msg w] by simp
  then show ?thesis using Cons p by (cases a) (simp_all add: worker_step_def)
qed

lemma worker_steps_redis: "redis ((worker_step en ^^ n) w) = redis w"
  by (induction n) (simp_all add: worker_step_redis)

lemma worker_step_fields:
  assumes "nats w = msg # rest" "process_event en msg w = (a, v)"
  shows "db (worker_step en w) = db v \<and>
         nats (worker_step en w) =
           (case a of
              Nak d \<Rightarrow> if delivered msg + 1 < 3
                       then rest @ [msg\<lparr>delivered := delivered msg + 1\<rparr>] else rest
            | _ \<Rightarrow> rest)"
  using assms by (cases a) (simp_all add: worker_step_def)

lemma worker_step_cong:
  assumes n: "nats w = nats w'" and d: "db w = db w'"
  shows "nats (worker_step en w) = nats (worker_step en w') \<and>
         db (worker_step en w) = db (worker_step en w')"
proof (cases "nats w")
  case Nil
  then have "nats w' = []" using n by simp
  then have "worker_step en w' = w'" by (simp add: worker_step_def)
  moreover have "worker_step en w = w" using Nil by (simp add: worker_step_def)
  ultimately show ?thesis using n d by simp
next
  case (Cons msg rest)
  obtain a v where p: "process_event en msg w = (a, v)" by (cases "process_event en msg w")
  obtain a' v' where p': "process_event en msg w' = (a', v')" by (cases "process_event en msg w'")
  have "fst (process_event en msg w) = fst (process_event en msg w')"
    and "db (snd (process_event en msg w)) = db (snd (process_event en msg w'))"
    using process_event_cong [OF d, of en msg] by blast+
  then have e: "a' = a" "db v' = db v" using p p' by simp_all
  have c': "nats w' = msg # rest" using Cons n by simp
  note F = worker_step_fields [OF Cons p] worker_step_fields [OF c' p']
  show ?thesis using F e by simp
qed

lemma worker_steps_cong:
  assumes "nats w = nats w'" "db w = db w'"
  shows "nats ((worker_step en ^^ m) w) = nats ((worker_step en ^^ m) w') \<and>
         db ((worker_step en ^^ m) w) = db ((worker_step en ^^ m) w')"
proof (induction m)
  case 0
  show ?case using assms by simp
next
  case (Suc m)
  then have a: "nats ((worker_step en ^^ m) w) = nats ((worker_step en ^^ m) w')"
    and b: "db ((worker_step en ^^ m) w) = db ((worker_step en ^^ m) w')" by blast+
  from worker_step_cong [OF a b, of en] show ?case by (simp only: funpow.simps comp_apply)
qed

lemma insert_one:
  "get_session (insert_events dr [e]) tbl =
     (if dr e then (Inl DriverError, tbl)
      else if event_id e \<in> event_id ` set tbl then (Inr (0, 1), tbl)
      else (Inr (1, 0), tbl @ [e]))"
  by (simp add: get_session_def insert_events_def execute_insert_def begin_session_def
        commit_def rollback_def)

lemma process_event_eq:
  "process_event en msg w =
     (case data msg of
        Not_json \<Rightarrow>
          (Term, w\<lparr>metrics := (metrics w)\<lparr>events_failed_total :=
                     inc (events_failed_total (metrics w)) ''decode_error''\<rparr>\<rparr>)
      | Json_event e \<Rightarrow>
          (if driver_raises en e
           then (Nak 5, w\<lparr>metrics := (metrics w)\<lparr>events_failed_total :=
                     inc (events_failed_total (metrics w)) ''processing_error''\<rparr>\<rparr>)
           else if event_id e \<in> event_id ` set (db w) then (Ack, w)
           else (Ack, w\<lparr>db := db w @ [e],
                        metrics := (metrics w)\<lparr>events_ingested_total :=
                          inc (events_ingested_total (metrics w)) (event_type e)\<rparr>\<rparr>))
      | _ \<Rightarrow>
          (Nak 5, w\<lparr>metrics := (metrics w)\<lparr>events_failed_total :=
                     inc (events_failed_total (metrics w)) ''processing_error''\<rparr>\<rparr>))"
  by (cases "data msg") (simp_all add: process_event_def insert_one)

text \<open>
  Claim C5, as stated, fails. A payload that is well-formed JSON but not an event record
  (the text \<open>{}\<close>, say) does not decode into an event: \<open>EventCreate(**event_data)\<close>
  raises \<open>ValidationError\<close>, which \<open>except json.JSONDecodeError\<close> does not catch. The
  worker answers \<open>nak\<close> with a delay of 5, not \<open>term\<close>, and the decode-error counter
  stays at 0.
\<close>

theorem process_event_malformed_counterexample:
  "decode (data \<lparr>data = Json_not_event, delivered = 0\<rparr>) = Inl ValidationError \<and>
   fst (process_event reliable \<lparr>data = Json_not_event, delivered = 0\<rparr> empty_world) = Nak 5 \<and>
   fst (process_event reliable \<lparr>data = Json_not_event, delivered = 0\<rparr> empty_world) \<noteq> Term \<and>
   events_failed_total
     (metrics (snd (process_event reliable \<lparr>data = Json_not_event, delivered = 0\<rparr> empty_world)))
     ''decode_error'' = 0"
  by (simp add: process_event_eq empty_world_def no_metrics_def inc_def)

text \<open>
  Claim C5, amended. If the payload is not well-formed JSON, the worker terminates the
  message, adds one to the decode-error counter and leaves the store as it is. If the
  payload is the JSON form of an event and the driver does not raise on the insert, the
  worker acknowledges; the event is in the store afterwards, appended unless its
  identifier was there, and the failure counters are unchanged. If the payload is a JSON
  object that does not validate as an event, or the driver raises on the insert of a
  decoded event, the worker answers \<open>nak\<close> with a delay of 5, does not acknowledge, adds
  one to the processing-error counter and leaves the store as it is.
\<close>

theorem process_event_outcomes:
  "(data msg = Not_json \<longrightarrow>
      process_event en msg w =
        (Term, w\<lparr>metrics := (metrics w)\<lparr>events_failed_total :=
                   inc (events_failed_total (metrics w)) ''decode_error''\<rparr>\<rparr>)) \<and>
   (\<forall>e. data msg = Json_event e \<and> \<not> driver_raises en e \<longrightarrow>
      (\<exists>w'. process_event en msg w = (Ack, w') \<and>
            db w' = (if event_id e \<in> event_id ` set (db w) then db w else db w @ [e]) \<and>
            events_failed_total (metrics w') = events_failed_total (metrics w))) \<and>
   (data msg = Json_not_event \<or> (\<exists>e. data msg = Json_event e \<and> driver_raises en e) \<longrightarrow>
      process_event en msg w =
        (Nak 5, w\<lparr>metrics := (metrics w)\<lparr>events_failed_total :=
                    inc (events_failed_total (metrics w)) ''processing_error''\<rparr>\<rparr>))"
  by (auto simp: process_event_eq)

theorem process_event_outcomes_witness:
  "fst (process_event reliable \<lparr>data = Not_json, delivered = 0\<rparr> empty_world) = Term \<and>
   events_failed_total
     (metrics (snd (process_event reliable \<lparr>data = Not_json, delivered = 0\<rparr> empty_world)))
     ''decode_error'' = 1 \<and>
   db (snd (process_event reliable \<lparr>data = Not_json, delivered = 0\<rparr> empty_world)) = [] \<and>
   (\<exists>w'. process_event reliable
            \<lparr>data = Json_event (sample_event 1 ''u1'' ''click'' 6), delivered = 0\<rparr> empty_world
          = (Ack, w') \<and> db w' = [sample_event 1 ''u1'' ''click'' 6]) \<and>
   fst (process_event (reliable\<lparr>driver_raises := (\<lambda>e. True)\<rparr>)
          \<lparr>data = Json_event (sample_event 1 ''u1'' ''click'' 6), delivered = 0\<rparr> empty_world)
     = Nak 5 \<and>
   db (snd (process_event (reliable\<lparr>driver_raises := (\<lambda>e. True)\<rparr>)
          \<lparr>data = Json_event (sample_event 1 ''u1'' ''click'' 6), delivered = 0\<rparr> empty_world))
     = []"
proof -
  let ?e = "sample_event 1 ''u1'' ''click'' 6"
  note A = process_event_outcomes [of "\<lparr>data = Not_json, delivered = 0\<rparr>" reliable empty_world,
             THEN conjunct1, THEN mp]
  have a: "process_event reliable \<lparr>data = Not_json, delivered = 0\<rparr> empty_world =
        (Term, empty_world\<lparr>metrics := (metrics empty_world)\<lparr>events_failed_total :=
                   inc (events_failed_total (metrics empty_world)) ''decode_error''\<rparr>\<rparr>)"
    by (rule A) simp
  note B = process_event_outcomes [of "\<lparr>data = Json_event ?e, delivered = 0\<rparr>" reliable empty_world,
             THEN conjunct2, THEN conjunct1, THEN spec, of ?e, THEN mp]
  have "\<exists>w'. process_event reliable \<lparr>data = Json_event ?e, delivered = 0\<rparr> empty_world = (Ack, w') \<and>
            db w' = (if event_id ?e \<in> event_id ` set (db empty_world) then db empty_world
                     else db empty_world @ [?e]) \<and>
            events_failed_total (metrics w') = events_failed_total (metrics empty_world)"
    by (rule B) (simp add: reliable_def)
  then obtain w' where
    b: "process_event reliable \<lparr>data = Json_event ?e, delivered = 0\<rparr> empty_world = (Ack, w')"
       "db w' = (if event_id ?e \<in> event_id ` set (db empty_world) then db empty_world
                     else db empty_world @ [?e])"
    by (elim exE conjE)
  from b(2) have b2: "db w' = [?e]" by (simp add: empty_world_def)
  note C = process_event_outcomes
             [of "\<lparr>data = Json_event ?e, delivered = 0\<rparr>" "reliable\<lparr>driver_raises := (\<lambda>e. True)\<rparr>"
                 empty_world, THEN conjunct2, THEN conjunct2, THEN mp]
  have c: "process_event (reliable\<lparr>driver_raises := (\<lambda>e. True)\<rparr>)
             \<lparr>data = Json_event ?e, delivered = 0\<rparr> empty_world =
        (Nak 5, empty_world\<lparr>metrics := (metrics empty_world)\<lparr>events_failed_total :=
                    inc (events_failed_total (metrics empty_world)) ''processing_error''\<rparr>\<rparr>)"
    by (rule C) simp
  show ?thesis using a b(1) b2 c
    by (simp add: empty_world_def no_metrics_def inc_def)
qed

section \<open>Submitting a batch twice\<close>

lemma ingested_ids_entry:
  assumes "ingest_events en cfg now batch w = (Inr resp, w1)" "e \<in> set batch"
  shows "redis w1 (Event_seen (event_id e)) =
           (if live now (redis w) (Event_seen (event_id e))
            then redis w (Event_seen (event_id e))
            else Some (1, Some (now + redis_idempotency_ttl cfg)))"
proof -
  let ?P = "\<lambda>i. live now (redis w) (Event_seen i)"
  let ?new_ids = "filter (\<lambda>i. \<not> ?P i) (map event_id batch)"
  let ?k = "Event_seen (event_id e)"
  note I = ingest_events_Inr [OF assms(1)]
  show ?thesis
  proof (cases "?P (event_id e)")
    case True
    have "redis w1 ?k = redis w ?k"
    proof (cases "?new_ids = []")
      case True
      then show ?thesis using I by simp
    next
      case False
      then have "redis w1 = snd (run_cmds now
                        (map (\<lambda>i. SET_NX_EX (Event_seen i) 1 (redis_idempotency_ttl cfg)) ?new_ids)
                        (redis w))" using I by blast
      then show ?thesis using set_run_keeps [OF True, of Event_seen 1 _ ?new_ids] by simp
    qed
    then show ?thesis using True by simp
  next
    case False
    then have m: "event_id e \<in> set ?new_ids" using assms(2) by simp
    have ne: "?new_ids \<noteq> []"
    proof
      assume "?new_ids = []"
      then have "set ?new_ids = {}" by (simp only: set_empty2 [symmetric])
      with m show False by (simp only: empty_iff)
    qed
    then have pos: "0 < redis_idempotency_ttl cfg"
      and r: "redis w1 = snd (run_cmds now
                        (map (\<lambda>i. SET_NX_EX (Event_seen i) 1 (redis_idempotency_ttl cfg)) ?new_ids)
                        (redis w))" using I by blast+
    from set_run_marks [OF pos m, of now 1 "redis w"] r False
    show ?thesis by simp
  qed
qed

lemma ingest_events_total:
  assumes "ingest_events en cfg now batch w = (Inr resp, w1)"
  shows "accepted resp + duplicates resp = length batch"
proof -
  let ?P = "\<lambda>i. live now (redis w) (Event_seen i)"
  have "length (filter (\<lambda>i. \<not> ?P i) (map event_id batch)) + length (filter ?P (map event_id batch))
          = length batch"
    using sum_length_filter_compl [of ?P "map event_id batch"] by simp
  then show ?thesis using ingest_events_Inr [OF assms] by simp
qed

text \<open>
  Claim C8. A batch is submitted at \<open>t1\<close> and answered with a response; the worker makes
  any number of deliveries; the same batch is submitted again at \<open>t2\<close>, and no key of the
  batch expires in between (the keys that existed at \<open>t1\<close> still exist at \<open>t2\<close>, and
  \<open>t2\<close> is less than the TTL after \<open>t1\<close>). Then the second submission is answered with
  a response whose \<open>accepted + duplicates\<close> equals that of the first, it accepts nothing,
  publishes nothing and leaves the table of the store as it is, so the number of rows is
  unchanged; and whatever the worker does afterwards, the store is the one it would have
  been without the second submission.
\<close>

theorem resubmission_is_idempotent:
  "ingest_events en cfg t1 batch w = (Inr resp1, w1) \<and>
   t2 < t1 + redis_idempotency_ttl cfg \<and>
   (\<forall>e \<in> set batch. live t1 (redis w) (Event_seen (event_id e)) \<longrightarrow>
                     live t2 (redis w) (Event_seen (event_id e))) \<longrightarrow>
     (\<exists>resp2 w2.
        ingest_events en2 cfg t2 batch ((worker_step wen ^^ n) w1) = (Inr resp2, w2) \<and>
        accepted resp2 + duplicates resp2 = accepted resp1 + duplicates resp1 \<and>
        accepted resp2 = 0 \<and>
        nats w2 = nats ((worker_step wen ^^ n) w1) \<and>
        db w2 = db ((worker_step wen ^^ n) w1) \<and>
        length (db w2) = length (db ((worker_step wen ^^ n) w1)) \<and>
        (\<forall>m. db ((worker_step wen ^^ m) w2) = db ((worker_step wen ^^ (m + n)) w1)))"
proof (intro impI)
  assume h: "ingest_events en cfg t1 batch w = (Inr resp1, w1) \<and>
   t2 < t1 + redis_idempotency_ttl cfg \<and>
   (\<forall>e \<in> set batch. live t1 (redis w) (Event_seen (event_id e)) \<longrightarrow>
                     live t2 (redis w) (Event_seen (event_id e)))"
  then have i1: "ingest_events en cfg t1 batch w = (Inr resp1, w1)"
    and t: "t2 < t1 + redis_idempotency_ttl cfg"
    and keep: "\<forall>e \<in> set batch. live t1 (redis w) (Event_seen (event_id e)) \<longrightarrow>
                     live t2 (redis w) (Event_seen (event_id e))" by blast+
  let ?v = "(worker_step wen ^^ n) w1"
  have all_live: "\<forall>e \<in> set batch. live t2 (redis ?v) (Event_seen (event_id e))"
  proof
    fix e assume e: "e \<in> set batch"
    let ?k = "Event_seen (event_id e)"
    note E = ingested_ids_entry [OF i1 e]
    have "live t2 (redis w1) ?k"
    proof (cases "live t1 (redis w) ?k")
      case True
      then have "redis w1 ?k = redis w ?k" using E by simp
      moreover have "live t2 (redis w) ?k" using keep e True by blast
      ultimately show ?thesis using live_cong by metis
    next
      case False
      then have "redis w1 ?k = Some (1, Some (t1 + redis_idempotency_ttl cfg))" using E by simp
      then show ?thesis using t by (simp add: live_def)
    qed
    then show "live t2 (redis ?v) ?k" by (simp add: worker_steps_redis)
  qed
  from ingest_events_all_duplicates [OF all_live, of en2 cfg] obtain w2 where
    i2: "ingest_events en2 cfg t2 batch ?v =
           (Inr \<lparr>accepted = 0, duplicates = length batch, failed = 0,
                 message = All_events_were_duplicates\<rparr>, w2)"
    and f: "nats w2 = nats ?v" "db w2 = db ?v" by blast
  have tot: "accepted resp1 + duplicates resp1 = length batch"
    using i1 by (rule ingest_events_total)
  have later: "\<forall>m. db ((worker_step wen ^^ m) w2) = db ((worker_step wen ^^ (m + n)) w1)"
  proof
    fix m
    from worker_steps_cong [OF f, where en = wen and m = m]
    have "db ((worker_step wen ^^ m) w2) = db ((worker_step wen ^^ m) ?v)" by blast
    then show "db ((worker_step wen ^^ m) w2) = db ((worker_step wen ^^ (m + n)) w1)"
      by (simp only: funpow_add comp_apply)
  qed
  show "\<exists>resp2 w2.
        ingest_events en2 cfg t2 batch ?v = (Inr resp2, w2) \<and>
        accepted resp2 + duplicates resp2 = accepted resp1 + duplicates resp1 \<and>
        accepted resp2 = 0 \<and>
        nats w2 = nats ?v \<and>
        db w2 = db ?v \<and>
        length (db w2) = length (db ?v) \<and>
        (\<forall>m. db ((worker_step wen ^^ m) w2) = db ((worker_step wen ^^ (m + n)) w1))"
    using i2 f tot later by auto
qed

theorem resubmission_is_idempotent_witness:
  "\<exists>resp1 w1 resp2 w2.
     ingest_events reliable default_settings 0
       [sample_event 1 ''user_1'' ''page_view'' 100, sample_event 2 ''user_2'' ''purchase'' 100]
       (empty_world\<lparr>redis := [Event_seen 2 \<mapsto> (1, Some 500)]\<rparr>) = (Inr resp1, w1) \<and>
     ingest_events reliable default_settings 10
       [sample_event 1 ''user_1'' ''page_view'' 100, sample_event 2 ''user_2'' ''purchase'' 100]
       ((worker_step reliable ^^ 1) w1) = (Inr resp2, w2) \<and>
     accepted resp1 + duplicates resp1 = 2 \<and>
     accepted resp2 + duplicates resp2 = 2 \<and>
     accepted resp2 = 0 \<and>
     length (db w2) = length (db ((worker_step reliable ^^ 1) w1))"
proof -
  let ?batch = "[sample_event 1 ''user_1'' ''page_view'' 100, sample_event 2 ''user_2'' ''purchase'' 100]"
  let ?w = "empty_world\<lparr>redis := [Event_seen 2 \<mapsto> (1, Some 500)]\<rparr>"
  have "0 < redis_idempotency_ttl default_settings" "\<forall>e \<in> set ?batch. \<not> publish_raises reliable e"
    by (simp_all add: default_settings_def reliable_def)
  from ingest_events_succeeds [OF this] obtain resp1 w1 where
    i1: "ingest_events reliable default_settings 0 ?batch ?w = (Inr resp1, w1)" by blast
  have t: "10 < 0 + redis_idempotency_ttl default_settings" by (simp add: default_settings_def)
  have keep: "\<forall>e \<in> set ?batch. live 0 (redis ?w) (Event_seen (event_id e)) \<longrightarrow>
                     live 10 (redis ?w) (Event_seen (event_id e))"
    by (simp add: sample_event_def live_def)
  from resubmission_is_idempotent
         [where en = reliable and cfg = default_settings and ?t1.0 = 0 and batch = ?batch and w = ?w
            and ?resp1.0 = resp1 and ?w1.0 = w1 and ?t2.0 = 10 and ?en2.0 = reliable and wen = reliable
            and n = 1] i1 t keep
  obtain resp2 w2 where
    "ingest_events reliable default_settings 10 ?batch ((worker_step reliable ^^ 1) w1) = (Inr resp2, w2)"
    "accepted resp2 + duplicates resp2 = accepted resp1 + duplicates resp1"
    "accepted resp2 = 0"
    "length (db w2) = length (db ((worker_step reliable ^^ 1) w1))"
    by blast
  moreover have "accepted resp1 + duplicates resp1 = 2"
    using ingest_events_total [OF i1] by simp
  ultimately show ?thesis using i1 by auto
qed

section \<open>Properties of the analytics queries\<close>








lemma get_dau_zones_apart:
  "get_dau 32400 [sample_event 1 ''user_A'' ''click'' 1704164400] 19723 19723 = [(19724, 1)]"
  by (simp add: get_dau_def as_timestamp_def DATE_def midnight_def sample_event_def)



lemma retention_loop_stops:
  "4 \<le> k \<Longrightarrow> retention_loop rate tbl window_type start_date cohort_users (k # ks) cohort
      = Inl ValueError"
  by (simp add: setattr_window_def)

lemma upt_four: "4 \<le> n \<Longrightarrow> [1 ..< Suc n] = [1, 2, 3, 4] @ [5 ..< Suc n]"
proof -
  assume "4 \<le> n"
  then have "[1 ..< Suc n] = [1 ..< 5] @ [5 ..< Suc n]"
    using upt_add_eq_append [of 1 5 "Suc n - 5"] by simp
  moreover have "[1 ..< 5] = [1, 2, 3, 4 :: nat]" by (simp add: upt_rec)
  ultimately show ?thesis by simp
qed

lemma retention_loop_three:
  "\<exists>c. retention_loop rate tbl window_type start_date cohort_users (1 # 2 # 3 # ks) cohort
      = retention_loop rate tbl window_type start_date cohort_users ks c"
  by (simp add: setattr_window_def setattr_retention_rate_def Let_def) blast

lemma get_retention_raises:
  assumes "users_on tbl start_date \<noteq> []" "4 \<le> windows"
  shows "get_retention rate tbl start_date windows window_type = Inl ValueError"
proof -
  from assms(2) have n: "nat (windows + 1) = Suc (nat windows)" "4 \<le> nat windows" by simp_all
  from upt_four [OF n(2)] have u: "[1 ..< nat (windows + 1)] = 1 # 2 # 3 # 4 # [5 ..< Suc (nat windows)]"
    using n(1) by simp
  obtain c :: "'a retention_cohort" where "retention_loop rate tbl window_type start_date (users_on tbl start_date)
        (1 # 2 # 3 # 4 # [5 ..< Suc (nat windows)])
        \<lparr>cohort_start = start_date, window_0 = length (users_on tbl start_date),
                    window_1 = None, window_2 = None, window_3 = None,
                    retention_rate_1 = None, retention_rate_2 = None, retention_rate_3 = None\<rparr>
      = retention_loop rate tbl window_type start_date (users_on tbl start_date)
          (4 # [5 ..< Suc (nat windows)]) c"
    using retention_loop_three by blast
  moreover have "retention_loop rate tbl window_type start_date (users_on tbl start_date)
          (4 # [5 ..< Suc (nat windows)]) c = Inl ValueError"
    by (rule retention_loop_stops) simp
  ultimately show ?thesis using assms(1) u
    by (simp add: get_retention_def Let_def del: retention_loop.simps upt_Suc)
qed


lemma upt_1_3: "[Suc 0 ..< 3] = [Suc 0, 2]"
  by (simp add: upt_rec)

lemma get_retention_empty:
  "users_on tbl start_date = [] \<Longrightarrow> get_retention rate tbl start_date windows window_type = Inr []"
  by (simp add: get_retention_def)

text \<open>
  Claim C1. The endpoint accepts up to 10 windows, and the loop of \<open>get_retention\<close> sets
  \<open>window_k\<close> and \<open>retention_rate_k\<close> for every \<open>k\<close> up to \<open>windows\<close>, but
  \<open>RetentionCohort\<close> has these fields for \<open>k \<le> 3\<close> only. On the sample store the cohort
  of day 19723 is \<open>u1\<close> and \<open>u2\<close>; with 4 daily windows the query raises \<open>ValueError\<close>
  at \<open>setattr(cohort, "window_4", ...)\<close> and returns no counts, where the claim promises
  one count and one rate per window. With 2 windows it returns the cohort of 2, 1 retained
  user in window 1 and 0 in window 2, each with the rate of that count over the cohort
  size (kept as the pair of the two numbers).
\<close>

theorem get_retention_four_windows_raises:
  "users_on retention_sample 19723 = [''u2'', ''u1''] \<and>
   get_retention (\<lambda>retained cohort_size. (retained, cohort_size)) retention_sample 19723 4 ''daily''
     = Inl ValueError \<and>
   get_retention (\<lambda>retained cohort_size. (retained, cohort_size)) retention_sample 19723 2 ''daily''
     = Inr [\<lparr>cohort_start = 19723, window_0 = 2, window_1 = Some 1, window_2 = Some 0,
             window_3 = None, retention_rate_1 = Some (1, 2), retention_rate_2 = Some (0, 2),
             retention_rate_3 = None\<rparr>]"
proof -
  have u: "users_on retention_sample 19723 = [''u2'', ''u1'']"
    by (simp add: users_on_def retention_sample_def sample_event_def DATE_def)
  then have ne: "users_on retention_sample 19723 \<noteq> []" by simp
  have four: "get_retention (\<lambda>retained cohort_size. (retained, cohort_size)) retention_sample 19723 4 ''daily''
     = Inl ValueError"
    using ne by (rule get_retention_raises) simp
  have r1: "retained_on retention_sample [''u2'', ''u1''] 19724 = [''u1'']"
    by (simp add: retained_on_def retention_sample_def sample_event_def DATE_def)
  have r2: "retained_on retention_sample [''u2'', ''u1''] 19725 = []"
    by (simp add: retained_on_def retention_sample_def sample_event_def DATE_def)
  have two: "get_retention (\<lambda>retained cohort_size. (retained, cohort_size)) retention_sample 19723 2 ''daily''
     = Inr [\<lparr>cohort_start = 19723, window_0 = 2, window_1 = Some 1, window_2 = Some 0,
             window_3 = None, retention_rate_1 = Some (1, 2), retention_rate_2 = Some (0, 2),
             retention_rate_3 = None\<rparr>]"
    by (simp add: get_retention_def u upt_1_3 window_date_def r1 r2
          setattr_window_def setattr_retention_rate_def)
  show ?thesis using u four two by blast
qed

end
